theory Spec2Isabelle
  imports Complex_Main "HOL-Library.AList" "HOL-Library.Log_Nat"
begin

section \<open>Strings\<close>

text \<open>
  A JavaScript string is modelled as a list of 8-bit characters, the code units U+0000 to
  U+00FF. On these, \<open>\s\<close> and \<open>trim\<close> take tab, line feed, vertical tab, form feed,
  carriage return, space and the no-break space U+00A0; \<open>\w\<close> is the ASCII letters, the
  digits and the underscore; \<open>toLowerCase\<close> maps \<open>A-Z\<close> and the letters U+00C0 to U+00DE
  (U+00D7, the multiplication sign, is no letter) to the character 32 places further on.
\<close>

definition uppers :: string where
  "uppers = ''ABCDEFGHIJKLMNOPQRSTUVWXYZ''"

definition lowers :: string where
  "lowers = ''abcdefghijklmnopqrstuvwxyz''"

definition digits :: string where
  "digits = ''0123456789''"

definition latin_uppers :: string where
  "latin_uppers =
     [CHR 0xC0, CHR 0xC1, CHR 0xC2, CHR 0xC3, CHR 0xC4, CHR 0xC5, CHR 0xC6, CHR 0xC7,
      CHR 0xC8, CHR 0xC9, CHR 0xCA, CHR 0xCB, CHR 0xCC, CHR 0xCD, CHR 0xCE, CHR 0xCF,
      CHR 0xD0, CHR 0xD1, CHR 0xD2, CHR 0xD3, CHR 0xD4, CHR 0xD5, CHR 0xD6, CHR 0xD8,
      CHR 0xD9, CHR 0xDA, CHR 0xDB, CHR 0xDC, CHR 0xDD, CHR 0xDE]"

definition latin_lowers :: string where
  "latin_lowers =
     [CHR 0xE0, CHR 0xE1, CHR 0xE2, CHR 0xE3, CHR 0xE4, CHR 0xE5, CHR 0xE6, CHR 0xE7,
      CHR 0xE8, CHR 0xE9, CHR 0xEA, CHR 0xEB, CHR 0xEC, CHR 0xED, CHR 0xEE, CHR 0xEF,
      CHR 0xF0, CHR 0xF1, CHR 0xF2, CHR 0xF3, CHR 0xF4, CHR 0xF5, CHR 0xF6, CHR 0xF8,
      CHR 0xF9, CHR 0xFA, CHR 0xFB, CHR 0xFC, CHR 0xFD, CHR 0xFE]"

definition is_space :: "char \<Rightarrow> bool" where
  "is_space c \<longleftrightarrow>
     c \<in> set [CHR 0x09, CHR 0x0A, CHR 0x0B, CHR 0x0C, CHR 0x0D, CHR '' '', CHR 0xA0]"

definition is_word :: "char \<Rightarrow> bool" where
  "is_word c \<longleftrightarrow> c \<in> set (uppers @ lowers @ digits @ ''_'')"

definition is_digit :: "char \<Rightarrow> bool" where
  "is_digit c \<longleftrightarrow> c \<in> set digits"

definition toLowerCase_char :: "char \<Rightarrow> char" where
  "toLowerCase_char c =
     (case map_of (zip (uppers @ latin_uppers) (lowers @ latin_lowers)) c of
        Some d \<Rightarrow> d
      | None \<Rightarrow> c)"

definition toLowerCase :: "string \<Rightarrow> string" where
  "toLowerCase s = map toLowerCase_char s"

text \<open>
  \<open>toUpperCase\<close> maps the other way, and the sharp s U+00DF to \<open>SS\<close>. The upper-case forms
  of the micro sign U+00B5 and of U+00FF lie outside the range; these two characters are
  left as they are. Upper-casing is applied below to the type tags, and to names from which
  every character other than \<open>A-Z\<close> and \<open>0-9\<close> is removed afterwards, the two characters
  and their upper-case forms among them.
\<close>

definition toUpperCase_char :: "char \<Rightarrow> string" where
  "toUpperCase_char c =
     (if c = CHR 0xDF then ''SS''
      else case map_of (zip (lowers @ latin_lowers) (uppers @ latin_uppers)) c of
        Some d \<Rightarrow> [d]
      | None \<Rightarrow> [c])"

definition toUpperCase :: "string \<Rightarrow> string" where
  "toUpperCase s = concat (map toUpperCase_char s)"

text \<open>\<open>String.prototype.trim\<close>: leading and trailing white space removed.\<close>

definition trim :: "string \<Rightarrow> string" where
  "trim s = rev (dropWhile is_space (rev (dropWhile is_space s)))"

text \<open>\<open>s.replace(/\s+/g, ' ')\<close>: every maximal run of white space becomes one space.\<close>

function collapse_ws :: "string \<Rightarrow> string" where
  "collapse_ws [] = []"
| "collapse_ws (c # cs) =
     (if is_space c then CHR '' '' # collapse_ws (dropWhile is_space cs)
      else c # collapse_ws cs)"
  by pat_completeness auto
termination
  by (relation "measure length") (auto simp: le_imp_less_Suc length_dropWhile_le)

text \<open>The characters that \<open>replace(/[^\w\s-]/g, '')\<close> leaves in place.\<close>

definition word_space_hyphen :: "char \<Rightarrow> bool" where
  "word_space_hyphen c \<longleftrightarrow> is_word c \<or> is_space c \<or> c = CHR ''-''"

text \<open>
  \<open>normalize\<close> of \<open>utils/normalize\<close>: the empty string is falsy and returned as it is; otherwise
  lower-case, trim, collapse white space, then strip what is not a word character, white
  space or a hyphen, in this order.
\<close>

definition normalize :: "string \<Rightarrow> string" where
  "normalize str =
     (if str = [] then []
      else filter word_space_hyphen (collapse_ws (trim (toLowerCase str))))"

section \<open>The rate limiter\<close>

text \<open>
  \<open>SecurityValidator.checkRateLimit\<close>. The map from client identifiers to timestamp
  arrays is passed in and returned updated; the reading of \<open>Date.now()\<close> is the last
  argument. A denied call returns before \<open>requests.set\<close> and leaves the map as it was.
\<close>

type_synonym RateMap = "string \<rightharpoonup> int list"

definition checkRateLimit ::
  "string \<Rightarrow> RateMap \<Rightarrow> int \<Rightarrow> int \<Rightarrow> int \<Rightarrow> bool \<times> RateMap" where
  "checkRateLimit identifier requests maxRequests windowMs now =
     (case requests identifier of
        None \<Rightarrow> (True, requests(identifier \<mapsto> [now]))
      | Some timestamps \<Rightarrow>
          (let recentRequests = filter (\<lambda>t. now - t < windowMs) timestamps
           in if maxRequests \<le> int (length recentRequests) then (False, requests)
              else (True, requests(identifier \<mapsto> recentRequests @ [now]))))"

text \<open>A client making one check at each of the given times, in order.\<close>

fun run_checks :: "string \<Rightarrow> int \<Rightarrow> int \<Rightarrow> RateMap \<Rightarrow> int list \<Rightarrow> bool list \<times> RateMap" where
  "run_checks c n w rq [] = ([], rq)"
| "run_checks c n w rq (t # ts) =
     (let (b, rq') = checkRateLimit c rq n w t;
          (bs, rq'') = run_checks c n w rq' ts
      in (b # bs, rq''))"

section \<open>Regular expressions of the security validator\<close>

text \<open>
  The validator's patterns use literals, character classes, alternation, \<open>*\<close>, \<open>+\<close> and the
  word boundary \<open>\b\<close>, all with the flags \<open>g\<close> and \<open>i\<close>. A position in the subject is a
  cursor: the character before it, if any, and the rest of the string. \<open>rx_match\<close> lists
  the cursors at which a match that starts at the given cursor can end, in the order in
  which a backtracking matcher tries them (left alternative first, \<open>*\<close> greedy).
\<close>

datatype rx = Eps | Sym "char \<Rightarrow> bool" | Bnd | Cat rx rx | Alt rx rx | Star rx

type_synonym cursor = "char option \<times> string"

fun star_from :: "(cursor \<Rightarrow> cursor list) \<Rightarrow> nat \<Rightarrow> cursor \<Rightarrow> cursor list" where
  "star_from f 0 c = [c]"
| "star_from f (Suc n) c =
     concat (map (star_from f n) (filter (\<lambda>d. length (snd d) < length (snd c)) (f c))) @ [c]"

definition at_boundary :: "cursor \<Rightarrow> bool" where
  "at_boundary c \<longleftrightarrow>
     (case fst c of None \<Rightarrow> False | Some p \<Rightarrow> is_word p)
     \<noteq> (case snd c of [] \<Rightarrow> False | x # _ \<Rightarrow> is_word x)"

primrec rx_match :: "rx \<Rightarrow> cursor \<Rightarrow> cursor list" where
  "rx_match Eps = (\<lambda>c. [c])"
| "rx_match (Sym P) =
     (\<lambda>c. case snd c of [] \<Rightarrow> [] | x # xs \<Rightarrow> if P x then [(Some x, xs)] else [])"
| "rx_match Bnd = (\<lambda>c. if at_boundary c then [c] else [])"
| "rx_match (Cat a b) = (\<lambda>c. concat (map (rx_match b) (rx_match a c)))"
| "rx_match (Alt a b) = (\<lambda>c. rx_match a c @ rx_match b c)"
| "rx_match (Star a) = (\<lambda>c. star_from (rx_match a) (length (snd c)) c)"

text \<open>Pattern syntax: a literal under the \<open>i\<close> flag, \<open>r+\<close>, and the classes.\<close>

definition ci :: "char \<Rightarrow> rx" where
  "ci c = Sym (\<lambda>x. toLowerCase_char x = toLowerCase_char c)"

definition lit :: "string \<Rightarrow> rx" where
  "lit s = foldr (\<lambda>c r. Cat (ci c) r) s Eps"

definition plus :: "rx \<Rightarrow> rx" where
  "plus r = Cat r (Star r)"

definition alts :: "rx list \<Rightarrow> rx" where
  "alts rs = foldr Alt (butlast rs) (last rs)"

definition seqs :: "rx list \<Rightarrow> rx" where
  "seqs rs = foldr Cat rs Eps"

definition rx_s :: rx where "rx_s = Sym is_space"
definition rx_w :: rx where "rx_w = Sym is_word"
definition rx_d :: rx where "rx_d = Sym is_digit"
definition rx_dot :: rx where "rx_dot = Sym (\<lambda>c. c \<noteq> CHR 0x0A \<and> c \<noteq> CHR 0x0D)"

text \<open>
  \<open>RegExp.prototype.test\<close> on a pattern with the \<open>g\<close> flag reads and writes the pattern's
  \<open>lastIndex\<close>: the search starts there, a match moves it to the end of the match, a
  failure resets it to 0. The result is the answer and the new \<open>lastIndex\<close>.
\<close>

definition cursor_at :: "string \<Rightarrow> nat \<Rightarrow> cursor" where
  "cursor_at s i = (if i = 0 then None else Some (s ! (i - 1)), drop i s)"

definition rx_test :: "rx \<Rightarrow> string \<Rightarrow> nat \<Rightarrow> bool \<times> nat" where
  "rx_test r s lastIndex =
     (if length s < lastIndex then (False, 0)
      else case List.find (\<lambda>j. rx_match r (cursor_at s j) \<noteq> []) [lastIndex..<Suc (length s)] of
             None \<Rightarrow> (False, 0)
           | Some j \<Rightarrow> (True, length s - length (snd (hd (rx_match r (cursor_at s j))))))"

definition SQL_INJECTION_PATTERNS :: "rx list" where
  "SQL_INJECTION_PATTERNS =
    [seqs [Bnd, Alt (lit ''or'') (lit ''and''), Bnd, Star rx_s, plus rx_d, Star rx_s,
           lit ''='', Star rx_s, plus rx_d],
     seqs [lit [CHR 0x27], Star rx_dot, Bnd, Alt (lit ''or'') (lit ''and''), Bnd,
           Star rx_dot, lit [CHR 0x27]],
     alts [lit ''--'', lit ''#'', lit ''/*'', lit ''*/''],
     seqs [alts [lit ''benchmark'', lit ''sleep'', lit ''waitfor'', lit ''delay''],
           Star rx_s, lit ''(''],
     seqs [Bnd, lit ''union'', Bnd, plus rx_s, Bnd, lit ''select'', Bnd],
     seqs [lit [CHR 0x27], Star rx_s, lit '';'', Star rx_s, plus rx_w]]"

definition BLOCKED_PATTERNS :: "rx list" where
  "BLOCKED_PATTERNS =
    [lit ''<script'',
     lit ''javascript:'',
     seqs [lit ''on'', plus rx_w, Star rx_s, lit ''=''],
     lit ''eval('',
     lit ''expression('',
     lit ''vbscript:'',
     seqs [lit ''import'', plus rx_s],
     seqs [lit ''require'', Star rx_s, lit ''(''],
     lit ''..'',
     lit ''file:'',
     lit ''data:'',
     seqs [Bnd, lit ''exec'', Bnd],
     seqs [Bnd, lit ''system'', Bnd],
     seqs [Bnd, lit ''drop'', Bnd],
     seqs [Bnd, lit ''delete'', Bnd],
     seqs [Bnd, lit ''union'', Bnd],
     seqs [Bnd, lit ''select'', Bnd, Star rx_dot, Bnd, lit ''from'', Bnd]]"

text \<open>
  The loops \<open>for (const pattern of ...) if (pattern.test(input)) throw\<close>: the patterns are
  tried in order and the loop stops at the first hit, which leaves the \<open>lastIndex\<close> of the
  later patterns untouched.
\<close>

fun test_patterns :: "rx list \<Rightarrow> nat list \<Rightarrow> string \<Rightarrow> bool \<times> nat list" where
  "test_patterns (p # ps) (i # is) s =
     (case rx_test p s i of
        (hit, e) \<Rightarrow>
          if hit then (True, e # is)
          else (case test_patterns ps is s of (hit', is') \<Rightarrow> (hit', e # is')))"
| "test_patterns _ is s = (False, is)"

record RegexState =
  sqlLastIndex :: "nat list"
  blockedLastIndex :: "nat list"

definition fresh_patterns :: RegexState where
  "fresh_patterns = \<lparr>sqlLastIndex = replicate 6 0, blockedLastIndex = replicate 17 0\<rparr>"

section \<open>SecurityValidator.sanitize and sanitizeSearchQuery\<close>

datatype error =
    InputTooLong
  | SqlInjectionPatterns
  | MaliciousContent
  | QueryTooLong
  | QueryTooShort
  | RateLimitExceeded
  | NotInitialized

definition MAX_INPUT_LENGTH :: nat where "MAX_INPUT_LENGTH = 200"
definition MAX_SEARCH_LENGTH :: nat where "MAX_SEARCH_LENGTH = 100"

text \<open>\<open>replace(/<[^>]*>/g, '')\<close>: a \<open><\<close> is removed with everything up to the next \<open>>\<close>.\<close>

function remove_tags :: "string \<Rightarrow> string" where
  "remove_tags [] = []"
| "remove_tags (c # cs) =
     (if c = CHR ''<'' \<and> CHR ''>'' \<in> set cs
      then remove_tags (tl (dropWhile (\<lambda>x. x \<noteq> CHR ''>'') cs))
      else c # remove_tags cs)"
  by pat_completeness auto
termination
proof (relation "measure length")
  fix c :: char and cs :: string
  have "length (tl (dropWhile (\<lambda>x. x \<noteq> CHR ''>'') cs)) \<le> length cs"
    using length_dropWhile_le[of "\<lambda>x. x \<noteq> CHR ''>''" cs] by simp
  then show "(tl (dropWhile (\<lambda>x. x \<noteq> CHR ''>'') cs), c # cs) \<in> measure length"
    by simp
qed simp_all

text \<open>The characters that \<open>replace(/[<>'"`;\\]/g, '')\<close> removes.\<close>

definition dangerous :: "char \<Rightarrow> bool" where
  "dangerous c \<longleftrightarrow> c \<in> set [CHR ''<'', CHR ''>'', CHR 0x27, CHR 0x22, CHR 0x60, CHR '';'', CHR 0x5C]"

text \<open>
  \<open>sanitize\<close>: the empty string is falsy and returned at once; the input is typed as a
  string, so the \<open>TypeError\<close> branch has no counterpart. The state is the \<open>lastIndex\<close> of
  the static patterns.
\<close>

definition sanitize :: "RegexState \<Rightarrow> string \<Rightarrow> (error + string) \<times> RegexState" where
  "sanitize st input =
     (if input = [] then (Inr [], st)
      else if MAX_INPUT_LENGTH < length input then (Inl InputTooLong, st)
      else case test_patterns SQL_INJECTION_PATTERNS (sqlLastIndex st) input of
        (sqlHit, sql') \<Rightarrow>
          if sqlHit then (Inl SqlInjectionPatterns, st\<lparr>sqlLastIndex := sql'\<rparr>)
          else case test_patterns BLOCKED_PATTERNS (blockedLastIndex st) input of
            (blockedHit, blocked') \<Rightarrow>
              if blockedHit
              then (Inl MaliciousContent, st\<lparr>sqlLastIndex := sql', blockedLastIndex := blocked'\<rparr>)
              else (Inr (trim (collapse_ws (filter (\<lambda>c. \<not> dangerous c) (remove_tags input)))),
                    st\<lparr>sqlLastIndex := sql', blockedLastIndex := blocked'\<rparr>))"

definition sanitizeSearchQuery :: "RegexState \<Rightarrow> string \<Rightarrow> (error + string) \<times> RegexState" where
  "sanitizeSearchQuery st query =
     (if query = [] then (Inr [], st)
      else if MAX_SEARCH_LENGTH < length query then (Inl QueryTooLong, st)
      else if length query < 2 then (Inl QueryTooShort, st)
      else sanitize st query)"

section \<open>Location data\<close>

datatype LocationType =
  Region | District | Council | Chiefdom | Section | Town | Province | Village

text \<open>At run time a \<open>LocationType\<close> is one of eight strings.\<close>

fun type_string :: "LocationType \<Rightarrow> string" where
  "type_string Region = ''region''"
| "type_string District = ''district''"
| "type_string Council = ''council''"
| "type_string Chiefdom = ''chiefdom''"
| "type_string Section = ''section''"
| "type_string Town = ''town''"
| "type_string Province = ''province''"
| "type_string Village = ''village''"

record LocationRecord =
  idregion :: string
  iddistrict :: string
  idcouncil :: string
  idchiefdom :: string
  idsection :: string
  idtown :: string

text \<open>
  \<open>SearchIndexEntry\<close>; the field \<open>partialMatch\<close> is only ever tested for truthiness, so
  an absent field is \<open>False\<close>.
\<close>

record SearchIndexEntry =
  e_name :: string
  e_type :: LocationType
  e_normalized :: string
  e_record :: LocationRecord
  e_partialMatch :: bool

record SearchResult =
  r_name :: string
  r_type :: LocationType
  r_fullPath :: string
  r_code :: string
  r_score :: rat

record SearchOptions =
  opt_limit :: "int option"
  opt_minScore :: "rat option"
  opt_types :: "LocationType list option"
  opt_fuzzy :: "bool option"

text \<open>A JavaScript \<open>Map\<close> from strings keeps its keys in insertion order: an association list
  in which \<open>set\<close> is \<open>AList.update\<close> and \<open>delete\<close> is \<open>AList.delete\<close>.\<close>

type_synonym IndexMap = "(string \<times> SearchIndexEntry list) list"

text \<open>\<open>s.includes(t)\<close>, \<open>s.split(' ')\<close>, \<open>parts.join(sep)\<close> and \<open>xs.slice(0, n)\<close>.\<close>

fun starts_with :: "string \<Rightarrow> string \<Rightarrow> bool" where
  "starts_with s [] = True"
| "starts_with [] (y # ys) = False"
| "starts_with (x # xs) (y # ys) = (x = y \<and> starts_with xs ys)"

fun str_includes :: "string \<Rightarrow> string \<Rightarrow> bool" where
  "str_includes [] t = (t = [])"
| "str_includes (x # xs) t = (starts_with (x # xs) t \<or> str_includes xs t)"

fun split_space :: "string \<Rightarrow> string list" where
  "split_space [] = [[]]"
| "split_space (c # cs) =
     (if c = CHR '' '' then [] # split_space cs
      else (case split_space cs of w # ws \<Rightarrow> (c # w) # ws | [] \<Rightarrow> [[c]]))"

fun join :: "string \<Rightarrow> string list \<Rightarrow> string" where
  "join sep [] = []"
| "join sep [p] = p"
| "join sep (p # q # ps) = p @ sep @ join sep (q # ps)"

definition slice0 :: "'a list \<Rightarrow> int \<Rightarrow> 'a list" where
  "slice0 xs n = (if 0 \<le> n then take (nat n) xs else take (nat (int (length xs) + n)) xs)"

section \<open>JavaScript numbers\<close>

text \<open>
  Scores are JavaScript numbers, that is IEEE 754 double-precision values. A score is
  modelled by the rational number it denotes, and \<open>round_double\<close> rounds a rational to the
  nearest double, ties to the even significand, which is what every arithmetic operation
  and every decimal literal of the program does with its exact value. A double has a
  significand of 53 bits: for \<open>x\<close> with \<open>2 ^ e \<le> \<bar>x\<bar> < 2 ^ (e + 1)\<close> the doubles around
  \<open>x\<close> are the multiples of \<open>2 ^ (e - 52)\<close>. The limits of the exponent are not modelled:
  the scores of the program are 0 or lie between \<open>1 / n\<close> and 1 for names of \<open>n\<close>
  characters, far from overflow and from the subnormal numbers.
\<close>

definition pow2 :: "int \<Rightarrow> rat" where
  "pow2 e = (if 0 \<le> e then 2 ^ nat e else 1 / 2 ^ nat (- e))"

text \<open>The binary exponent of a positive rational \<open>a / b\<close>, from the bit lengths of \<open>a\<close>
  and \<open>b\<close>.\<close>

definition exponent :: "rat \<Rightarrow> int" where
  "exponent x =
     (case quotient_of x of (a, b) \<Rightarrow>
        let g = bitlen a - bitlen b in if pow2 g \<le> x then g else g - 1)"

definition round_half_even :: "rat \<Rightarrow> int" where
  "round_half_even z =
     (let f = \<lfloor>z\<rfloor>; r = z - of_int f
      in if r < 1 / 2 then f else if 1 / 2 < r then f + 1 else if even f then f else f + 1)"

definition round_double :: "rat \<Rightarrow> rat" where
  "round_double x =
     (if x = 0 then 0
      else let ulp = pow2 (exponent \<bar>x\<bar> - 52)
           in of_int (round_half_even (x / ulp)) * ulp)"

section \<open>calculateSimilarity\<close>

text \<open>
  The Levenshtein matrix is filled row by row. \<open>fill_row c s1 prev left\<close> computes the
  cells of the row of character \<open>c\<close> of \<open>s2\<close> from a column on: \<open>prev\<close> is the row above
  starting at the diagonal cell, \<open>left\<close> the cell just written.
\<close>

fun fill_row :: "char \<Rightarrow> string \<Rightarrow> nat list \<Rightarrow> nat \<Rightarrow> nat list" where
  "fill_row c (d # ds) (diag # up # prev) left =
     (let v = (if c = d then diag else min (min (diag + 1) (left + 1)) (up + 1))
      in v # fill_row c ds (up # prev) v)"
| "fill_row c _ _ left = []"

definition levenshtein :: "string \<Rightarrow> string \<Rightarrow> nat" where
  "levenshtein s1 s2 =
     last (fold (\<lambda>(i, c) prev. i # fill_row c s1 prev i)
             (zip [1..<Suc (length s2)] s2) [0..<Suc (length s1)])"

text \<open>
  \<open>0.8\<close> is the double nearest to 8/10, and \<open>1 - distance / maxLength\<close> is a division and
  a subtraction of doubles, each rounded.
\<close>

definition calculateSimilarity :: "string \<Rightarrow> string \<Rightarrow> rat" where
  "calculateSimilarity str1 str2 =
     (let s1 = normalize str1; s2 = normalize str2
      in if s1 = s2 then 1
         else if str_includes s1 s2 \<or> str_includes s2 s1 then round_double (8 / 10)
         else (let distance = levenshtein s1 s2;
                   maxLength = max (length s1) (length s2)
               in if maxLength = 0 then 1
                  else round_double (1 - round_double (of_nat distance / of_nat maxLength))))"

section \<open>The search index of SearchService\<close>

definition normalizeLocationType :: "string \<Rightarrow> LocationType" where
  "normalizeLocationType ty =
     (case map_of [(''region'', Region), (''province'', Province), (''district'', District),
                   (''council'', Council), (''chiefdom'', Chiefdom), (''section'', Section),
                   (''town'', Town), (''village'', Village)] (toLowerCase ty) of
        Some t \<Rightarrow> t
      | None \<Rightarrow> Town)"

definition same_entry :: "SearchIndexEntry \<Rightarrow> SearchIndexEntry \<Rightarrow> bool" where
  "same_entry e entry \<longleftrightarrow>
     e_name e = e_name entry \<and> e_type e = e_type entry \<and> e_normalized e = e_normalized entry"

definition addEntryToKey :: "string \<Rightarrow> SearchIndexEntry \<Rightarrow> IndexMap \<Rightarrow> IndexMap" where
  "addEntryToKey key entry index =
     (let entries = (case map_of index key of None \<Rightarrow> [] | Some es \<Rightarrow> es)
      in AList.update key
           (if list_ex (\<lambda>e. same_entry e entry) entries then entries else entries @ [entry])
           index)"

text \<open>\<open>replace(/(.)\1+/g, '$1')\<close>: a run of one repeated character, other than a line
  terminator, shrinks to a single occurrence.\<close>

function collapse_repeats :: "string \<Rightarrow> string" where
  "collapse_repeats [] = []"
| "collapse_repeats (c # cs) =
     (if c \<noteq> CHR 0x0A \<and> c \<noteq> CHR 0x0D
      then c # collapse_repeats (dropWhile (\<lambda>x. x = c) cs)
      else c # collapse_repeats cs)"
  by pat_completeness auto
termination
  by (relation "measure length") (auto simp: le_imp_less_Suc length_dropWhile_le)

definition getPhoneticKey :: "string \<Rightarrow> string" where
  "getPhoneticKey text = take 6 (collapse_repeats (filter (\<lambda>c. c \<notin> set ''aeiou'') text))"

definition addToIndex :: "string \<Rightarrow> string \<Rightarrow> LocationRecord \<Rightarrow> IndexMap \<Rightarrow> IndexMap" where
  "addToIndex nm ty rec index =
     (if nm = [] \<or> trim nm = [] then index
      else
        let normalized = normalize nm;
            entry = \<lparr>e_name = trim nm, e_type = normalizeLocationType ty,
                     e_normalized = normalized, e_record = rec, e_partialMatch = False\<rparr>;
            index1 = addEntryToKey normalized entry index;
            words = split_space normalized;
            index2 = (if 1 < length words
                      then fold (\<lambda>word idx.
                             if 2 < length word
                             then addEntryToKey word (entry\<lparr>e_partialMatch := True\<rparr>) idx
                             else idx) words index1
                      else index1);
            phoneticKey = getPhoneticKey normalized
        in if phoneticKey \<noteq> normalized
           then addEntryToKey phoneticKey (entry\<lparr>e_partialMatch := True\<rparr>) index2
           else index2)"

definition index_record :: "LocationRecord \<Rightarrow> IndexMap \<Rightarrow> IndexMap" where
  "index_record rec index =
     addToIndex (idtown rec) ''town'' rec
       (addToIndex (idsection rec) ''section'' rec
         (addToIndex (idchiefdom rec) ''chiefdom'' rec
           (addToIndex (idcouncil rec) ''council'' rec
             (addToIndex (iddistrict rec) ''district'' rec
               (addToIndex (idregion rec) ''region'' rec index)))))"

text \<open>\<open>buildSearchIndex\<close> over the records that \<open>getLocationsByQuery({})\<close> returns.\<close>

definition buildSearchIndex :: "LocationRecord list \<Rightarrow> IndexMap \<Rightarrow> IndexMap" where
  "buildSearchIndex allRecords index = fold index_record allRecords index"

section \<open>SearchService: autocomplete and search\<close>

record SearchService =
  searchIndex :: IndexMap
  rateLimit :: RateMap
  patterns :: RegexState

definition buildFullPath :: "SearchIndexEntry \<Rightarrow> string" where
  "buildFullPath entry =
     (let rec = e_record entry;
          parts = (if idregion rec \<noteq> [] then [idregion rec] else [])
            @ (if iddistrict rec \<noteq> [] \<and> iddistrict rec \<noteq> idregion rec
               then [iddistrict rec] else [])
            @ (if idchiefdom rec \<noteq> [] \<and> idchiefdom rec \<noteq> iddistrict rec
               then [idchiefdom rec] else [])
            @ (if e_name entry \<noteq> idchiefdom rec then [e_name entry] else [])
      in join '' > '' parts)"

definition createSearchResult :: "SearchIndexEntry \<Rightarrow> rat \<Rightarrow> SearchResult" where
  "createSearchResult entry score =
     \<lparr>r_name = e_name entry, r_type = e_type entry, r_fullPath = buildFullPath entry,
      r_code = ''SL-'' @ toUpperCase (type_string (e_type entry)) @ ''-'' @ normalize (e_name entry),
      r_score = score\<rparr>"

text \<open>\<open>results.sort((a, b) => b.score - a.score)\<close>: a stable sort by descending score.\<close>

definition sort_by_score :: "('a \<Rightarrow> rat) \<Rightarrow> 'a list \<Rightarrow> 'a list" where
  "sort_by_score score xs = sort_key (\<lambda>r. - score r) xs"

text \<open>The body of the loop of \<open>autocomplete\<close> over the entries of one key; the state is the
  result array and the set \<open>seen\<close>.\<close>

definition autocomplete_entry ::
  "string \<Rightarrow> SearchIndexEntry \<Rightarrow> (string \<times> rat) list \<times> string list
     \<Rightarrow> (string \<times> rat) list \<times> string list" where
  "autocomplete_entry normalized entry st =
     (case st of (results, seen) \<Rightarrow>
        if e_name entry \<notin> set seen
        then (let score = calculateSimilarity normalized (e_normalized entry)
              in if round_double (3 / 10) < score
                 then (results @ [(e_name entry, score)], seen @ [e_name entry])
                 else (results, seen))
        else (results, seen))"

definition autocomplete_scan :: "string \<Rightarrow> IndexMap \<Rightarrow> (string \<times> rat) list \<times> string list" where
  "autocomplete_scan normalized index =
     fold (\<lambda>(key, entries) st.
             if str_includes key normalized \<or> str_includes normalized key
             then fold (autocomplete_entry normalized) entries st
             else st)
       index ([], [])"

definition autocomplete ::
  "SearchService \<Rightarrow> string \<Rightarrow> string \<Rightarrow> int \<Rightarrow> int \<Rightarrow> (error + string list) \<times> SearchService" where
  "autocomplete svc query clientId limit now =
     (case checkRateLimit clientId (rateLimit svc) 50 60000 now of
        (allowed, rl) \<Rightarrow>
          if \<not> allowed then (Inl RateLimitExceeded, svc\<lparr>rateLimit := rl\<rparr>)
          else case sanitizeSearchQuery (patterns svc) query of
            (Inl e, ps) \<Rightarrow> (Inl e, svc\<lparr>rateLimit := rl, patterns := ps\<rparr>)
          | (Inr sanitized, ps) \<Rightarrow>
              if sanitized = [] \<or> length sanitized < 2
              then (Inr [], svc\<lparr>rateLimit := rl, patterns := ps\<rparr>)
              else
                let normalized = normalize sanitized;
                    results = fst (autocomplete_scan normalized (searchIndex svc))
                in (Inr (map fst (slice0 (sort_by_score snd results) limit)),
                    svc\<lparr>rateLimit := rl, patterns := ps\<rparr>))"

text \<open>
  The three tiers of \<open>search\<close>. Each runs over the entries stored under one key and
  extends the result array and the set \<open>seen\<close> of \<open>name-type\<close> strings. The partial and the
  phonetic tier have the same loop body but for the score, which is the similarity in the
  one and the similarity times \<open>0.8\<close> in the other: \<open>weight\<close> is what the tier does to the
  similarity.
\<close>

definition seen_key :: "SearchIndexEntry \<Rightarrow> string" where
  "seen_key entry = e_name entry @ ''-'' @ type_string (e_type entry)"

definition index_get :: "IndexMap \<Rightarrow> string \<Rightarrow> SearchIndexEntry list" where
  "index_get index key = (case map_of index key of None \<Rightarrow> [] | Some es \<Rightarrow> es)"

definition exact_entry ::
  "LocationType list \<Rightarrow> SearchIndexEntry \<Rightarrow> SearchResult list \<times> string list
     \<Rightarrow> SearchResult list \<times> string list" where
  "exact_entry types entry st =
     (case st of (results, seen) \<Rightarrow>
        if e_type entry \<in> set types \<and> seen_key entry \<notin> set seen
        then (results @ [createSearchResult entry 1], seen @ [seen_key entry])
        else (results, seen))"

definition scored_entry ::
  "LocationType list \<Rightarrow> rat \<Rightarrow> (rat \<Rightarrow> rat) \<Rightarrow> string \<Rightarrow> SearchIndexEntry
     \<Rightarrow> SearchResult list \<times> string list \<Rightarrow> SearchResult list \<times> string list" where
  "scored_entry types minScore weight normalized entry st =
     (case st of (results, seen) \<Rightarrow>
        if e_type entry \<in> set types \<and> seen_key entry \<notin> set seen
        then (let score = weight (calculateSimilarity normalized (e_normalized entry))
              in if minScore \<le> score
                 then (results @ [createSearchResult entry score], seen @ [seen_key entry])
                 else (results, seen))
        else (results, seen))"

definition exact_tier ::
  "IndexMap \<Rightarrow> LocationType list \<Rightarrow> string \<Rightarrow> SearchResult list \<times> string list" where
  "exact_tier index types normalized =
     fold (exact_entry types) (index_get index normalized) ([], [])"

definition partial_tier ::
  "IndexMap \<Rightarrow> LocationType list \<Rightarrow> rat \<Rightarrow> string
     \<Rightarrow> SearchResult list \<times> string list \<Rightarrow> SearchResult list \<times> string list" where
  "partial_tier index types minScore normalized st =
     fold (\<lambda>word st'.
             if 2 < length word
             then fold (scored_entry types minScore (\<lambda>similarity. similarity) normalized)
                    (index_get index word) st'
             else st')
       (split_space normalized) st"

definition fuzzy_tier ::
  "IndexMap \<Rightarrow> LocationType list \<Rightarrow> rat \<Rightarrow> string
     \<Rightarrow> SearchResult list \<times> string list \<Rightarrow> SearchResult list \<times> string list" where
  "fuzzy_tier index types minScore normalized st =
     fold (scored_entry types minScore
             (\<lambda>similarity. round_double (similarity * round_double (8 / 10))) normalized)
       (index_get index (getPhoneticKey normalized)) st"

text \<open>The defaults of the destructured \<open>options\<close>.\<close>

definition limit_of :: "SearchOptions \<Rightarrow> int" where
  "limit_of options = (case opt_limit options of None \<Rightarrow> 20 | Some l \<Rightarrow> l)"

definition minScore_of :: "SearchOptions \<Rightarrow> rat" where
  "minScore_of options =
     (case opt_minScore options of None \<Rightarrow> round_double (3 / 10) | Some m \<Rightarrow> m)"

definition types_of :: "SearchOptions \<Rightarrow> LocationType list" where
  "types_of options =
     (case opt_types options of
        None \<Rightarrow> [Region, District, Council, Chiefdom, Section, Town]
      | Some ts \<Rightarrow> ts)"

definition fuzzy_of :: "SearchOptions \<Rightarrow> bool" where
  "fuzzy_of options = (case opt_fuzzy options of None \<Rightarrow> True | Some f \<Rightarrow> f)"

text \<open>The state of \<open>results\<close> and \<open>seen\<close> after each of the three blocks of \<open>search\<close>:
  \<open>results.length < limit\<close> guards the second, \<open>fuzzy && results.length < limit / 2\<close> the
  third.\<close>

definition after_exact :: "IndexMap \<Rightarrow> SearchOptions \<Rightarrow> string \<Rightarrow> SearchResult list \<times> string list" where
  "after_exact index options normalized = exact_tier index (types_of options) normalized"

definition after_partial :: "IndexMap \<Rightarrow> SearchOptions \<Rightarrow> string \<Rightarrow> SearchResult list \<times> string list" where
  "after_partial index options normalized =
     (let st = after_exact index options normalized
      in if int (length (fst st)) < limit_of options
         then partial_tier index (types_of options) (minScore_of options) normalized st
         else st)"

definition after_fuzzy :: "IndexMap \<Rightarrow> SearchOptions \<Rightarrow> string \<Rightarrow> SearchResult list \<times> string list" where
  "after_fuzzy index options normalized =
     (let st = after_partial index options normalized
      in if fuzzy_of options \<and> 2 * int (length (fst st)) < limit_of options
         then fuzzy_tier index (types_of options) (minScore_of options) normalized st
         else st)"

definition search_results :: "IndexMap \<Rightarrow> SearchOptions \<Rightarrow> string \<Rightarrow> SearchResult list" where
  "search_results index options sanitized =
     slice0 (sort_by_score r_score (fst (after_fuzzy index options (normalize sanitized))))
       (limit_of options)"

definition search ::
  "SearchService \<Rightarrow> string \<Rightarrow> SearchOptions \<Rightarrow> string \<Rightarrow> int
     \<Rightarrow> (error + SearchResult list) \<times> SearchService" where
  "search svc query options clientId now =
     (case checkRateLimit clientId (rateLimit svc) 30 60000 now of
        (allowed, rl) \<Rightarrow>
          if \<not> allowed then (Inl RateLimitExceeded, svc\<lparr>rateLimit := rl\<rparr>)
          else case sanitizeSearchQuery (patterns svc) query of
            (Inl e, ps) \<Rightarrow> (Inl e, svc\<lparr>rateLimit := rl, patterns := ps\<rparr>)
          | (Inr sanitized, ps) \<Rightarrow>
              if sanitized = [] then (Inr [], svc\<lparr>rateLimit := rl, patterns := ps\<rparr>)
              else (Inr (search_results (searchIndex svc) options sanitized),
                    svc\<lparr>rateLimit := rl, patterns := ps\<rparr>))"

definition no_options :: SearchOptions where
  "no_options = \<lparr>opt_limit = None, opt_minScore = None, opt_types = None, opt_fuzzy = None\<rparr>"

text \<open>
  A service as the constructor leaves it, in a process in which the patterns of
  \<open>SecurityValidator\<close> have not been used. The patterns are static members of the class:
  \<open>patterns\<close> is their state as the service finds it at a call, and a service made later
  in the same process finds them as earlier calls have left them. The statements about
  \<open>search\<close> and \<open>autocomplete\<close> below are about a service in any state; \<open>new_service\<close> is
  for the examples.
\<close>

definition new_service :: "LocationRecord list \<Rightarrow> SearchService" where
  "new_service allRecords =
     \<lparr>searchIndex = buildSearchIndex allRecords [], rateLimit = Map.empty,
      patterns = fresh_patterns\<rparr>"

section \<open>Location codes\<close>

definition upper_or_digit :: "char \<Rightarrow> bool" where
  "upper_or_digit c \<longleftrightarrow> c \<in> set (uppers @ digits)"

text \<open>\<open>generateCode\<close> of the CSV processor, which builds the hierarchy of the service.\<close>

definition generateCode :: "string \<Rightarrow> string \<Rightarrow> string" where
  "generateCode ty nm =
     (let normalized = filter upper_or_digit (toUpperCase (normalize nm))
      in take 50 (''SL-'' @ ty @ ''-'' @ normalized))"

text \<open>\<open>DataProcessor.generateCode\<close> of the data-processing script.\<close>

definition DataProcessor_generateCode :: "string \<Rightarrow> string \<Rightarrow> string" where
  "DataProcessor_generateCode ty nm =
     (let normalized = take 20 (filter upper_or_digit (toUpperCase nm))
      in ''SL-'' @ ty @ ''-'' @ normalized)"

section \<open>LocationService: the cache, search and findPlace\<close>

record PlaceDetails =
  p_name :: string
  p_type :: LocationType
  p_code :: string
  p_province :: string
  p_district :: string
  p_chiefdom :: string

text \<open>The values that \<open>search\<close> and \<open>findPlace\<close> put into the cache, which is typed
  \<open>Map<string, unknown>\<close>.\<close>

datatype cached = CNull | CPlace PlaceDetails | CPlaces "PlaceDetails list"

text \<open>
  The state of the service. \<open>Date.now()\<close> is an input: \<open>dateNow s k\<close> is the reading that
  the \<open>k\<close>-th call returns and \<open>dateNowCalls\<close> counts the calls made so far. \<open>validator\<close> is
  the state of the static patterns of \<open>SecurityValidator\<close>.
\<close>

record LocationService =
  rawData :: "LocationRecord list"
  cache :: "(string \<times> cached) list"
  cacheAccessTimes :: "(string \<times> int) list"
  locationIndex :: IndexMap
  initialized :: bool
  validator :: RegexState
  dateNow :: "nat \<Rightarrow> int"
  dateNowCalls :: nat

definition maxCacheSize :: nat where
  "maxCacheSize = 1000"

definition Date_now :: "LocationService \<Rightarrow> int \<times> LocationService" where
  "Date_now s = (dateNow s (dateNowCalls s), s\<lparr>dateNowCalls := Suc (dateNowCalls s)\<rparr>)"

text \<open>The scan of \<open>manageCacheSize\<close> for the least recently used key.\<close>

definition oldest_scan :: "(string \<times> int) list \<Rightarrow> string \<times> int \<Rightarrow> string \<times> int" where
  "oldest_scan accessTimes start =
     fold (\<lambda>(key, time) (oldestKey, oldestTime).
             if time < oldestTime then (key, time) else (oldestKey, oldestTime))
       accessTimes start"

definition manageCacheSize :: "LocationService \<Rightarrow> LocationService" where
  "manageCacheSize s =
     (if maxCacheSize \<le> length (cache s)
      then (case Date_now s of
              (now, s1) \<Rightarrow>
                (case oldest_scan (cacheAccessTimes s1) ('''', now) of
                   (oldestKey, oldestTime) \<Rightarrow>
                     if oldestKey \<noteq> ''''
                     then s1\<lparr>cache := AList.delete oldestKey (cache s1),
                             cacheAccessTimes := AList.delete oldestKey (cacheAccessTimes s1)\<rparr>
                     else s1))
      else s)"

definition getFromCache :: "string \<Rightarrow> LocationService \<Rightarrow> cached option \<times> LocationService" where
  "getFromCache key s =
     (if key \<in> fst ` set (cache s)
      then (case Date_now s of
              (now, s1) \<Rightarrow>
                (map_of (cache s1) key,
                 s1\<lparr>cacheAccessTimes := AList.update key now (cacheAccessTimes s1)\<rparr>))
      else (None, s))"

definition setToCache :: "string \<Rightarrow> cached \<Rightarrow> LocationService \<Rightarrow> LocationService" where
  "setToCache key v s =
     (let s1 = manageCacheSize s;
          s2 = s1\<lparr>cache := AList.update key v (cache s1)\<rparr>
      in case Date_now s2 of
           (now, s3) \<Rightarrow> s3\<lparr>cacheAccessTimes := AList.update key now (cacheAccessTimes s3)\<rparr>)"

text \<open>\<open>if (cached) return cached\<close>: \<open>undefined\<close> and \<open>null\<close> are falsy, objects and arrays,
  also the empty array, are truthy.\<close>

fun truthy :: "cached option \<Rightarrow> bool" where
  "truthy None = False"
| "truthy (Some CNull) = False"
| "truthy (Some (CPlace p)) = True"
| "truthy (Some (CPlaces ps)) = True"

text \<open>Decimal digits of a number, for the cache key of \<open>search\<close>.\<close>

function nat_string :: "nat \<Rightarrow> string" where
  "nat_string n = (if n < 10 then [digits ! n] else nat_string (n div 10) @ [digits ! (n mod 10)])"
  by pat_completeness auto
termination
  by (relation "measure id") auto

definition int_string :: "int \<Rightarrow> string" where
  "int_string i = (if i < 0 then CHR ''-'' # nat_string (nat (- i)) else nat_string (nat i))"

fun partial_words ::
  "IndexMap \<Rightarrow> int \<Rightarrow> string list \<Rightarrow> SearchIndexEntry list \<Rightarrow> SearchIndexEntry list" where
  "partial_words index limit [] acc = acc"
| "partial_words index limit (word # ws) acc =
     (let acc' = acc @ filter e_partialMatch (index_get index word)
      in if limit \<le> int (length acc') then acc' else partial_words index limit ws acc')"

definition place_of_entry :: "SearchIndexEntry \<Rightarrow> PlaceDetails" where
  "place_of_entry entry =
     \<lparr>p_name = e_name entry, p_type = e_type entry,
      p_code = ''SL-'' @ toUpperCase (type_string (e_type entry)) @ ''-'' @ normalize (e_name entry),
      p_province = idregion (e_record entry), p_district = iddistrict (e_record entry),
      p_chiefdom = idchiefdom (e_record entry)\<rparr>"

text \<open>\<open>Array.from(new Map(results.map(r => [r.code, r])).values())\<close>.\<close>

definition unique_by_code :: "PlaceDetails list \<Rightarrow> PlaceDetails list" where
  "unique_by_code results = map snd (fold (\<lambda>r m. AList.update (p_code r) r m) results [])"

text \<open>\<open>LocationService.search\<close>. A cache hit returns the cached value as it is.\<close>

definition location_search ::
  "string \<Rightarrow> int \<Rightarrow> LocationService \<Rightarrow> (error + cached) \<times> LocationService" where
  "location_search query limit s =
     (if \<not> initialized s then (Inl NotInitialized, s)
      else if query = [] \<or> length (trim query) < 2 then (Inr (CPlaces []), s)
      else case sanitize (validator s) query of
        (Inl e, v) \<Rightarrow> (Inl e, s\<lparr>validator := v\<rparr>)
      | (Inr sanitized, v) \<Rightarrow>
          (let normalized = normalize sanitized;
               cacheKey = ''search-'' @ normalized @ ''-'' @ int_string limit
           in case getFromCache cacheKey (s\<lparr>validator := v\<rparr>) of
                (hit, s2) \<Rightarrow>
                  if truthy hit then (Inr (the hit), s2)
                  else
                    let queryWords = filter (\<lambda>word. 1 < length word) (split_space normalized);
                        indexResults = slice0 (index_get (locationIndex s2) normalized) limit;
                        searchResults =
                          (if int (length indexResults) < limit
                           then partial_words (locationIndex s2) limit queryWords indexResults
                           else indexResults);
                        uniqueResults =
                          slice0 (unique_by_code (map place_of_entry searchResults)) limit
                    in (Inr (CPlaces uniqueResults),
                        setToCache cacheKey (CPlaces uniqueResults) s2)))"

text \<open>
  \<open>findPlace\<close>, in two parts: the lookup up to \<open>if (cached) return cached\<close>, and
  \<open>findPlace_compute\<close>, the rest of the body, which looks for the place and stores what it
  found.
\<close>

definition matches_record :: "string \<Rightarrow> LocationRecord \<Rightarrow> bool" where
  "matches_record normalized r \<longleftrightarrow>
     normalize (idtown r) = normalized \<or> normalize (idchiefdom r) = normalized
     \<or> normalize (iddistrict r) = normalized \<or> normalize (idregion r) = normalized"

definition findPlace_compute ::
  "string \<Rightarrow> string \<Rightarrow> string \<Rightarrow> LocationService \<Rightarrow> (error + cached) \<times> LocationService" where
  "findPlace_compute sanitized normalized cacheKey s =
     (case List.find (matches_record normalized) (rawData s) of
        Some exactMatch \<Rightarrow>
          (let place = \<lparr>p_name = idtown exactMatch, p_type = Town,
                        p_code = ''SL-TOWN-'' @ normalize (idtown exactMatch),
                        p_province = idregion exactMatch, p_district = iddistrict exactMatch,
                        p_chiefdom = idchiefdom exactMatch\<rparr>
           in (Inr (CPlace place), setToCache cacheKey (CPlace place) s))
      | None \<Rightarrow>
          (case location_search sanitized 1 s of
             (Inl e, s') \<Rightarrow> (Inl e, s')
           | (Inr (CPlaces (result # _)), s') \<Rightarrow>
               (Inr (CPlace result), setToCache cacheKey (CPlace result) s')
           | (Inr _, s') \<Rightarrow> (Inr CNull, setToCache cacheKey CNull s')))"

definition findPlace :: "string \<Rightarrow> LocationService \<Rightarrow> (error + cached) \<times> LocationService" where
  "findPlace nm s =
     (if \<not> initialized s then (Inl NotInitialized, s)
      else case sanitize (validator s) nm of
        (Inl e, v) \<Rightarrow> (Inl e, s\<lparr>validator := v\<rparr>)
      | (Inr sanitized, v) \<Rightarrow>
          (let normalized = normalize sanitized;
               cacheKey = ''place-'' @ normalized
           in case getFromCache cacheKey (s\<lparr>validator := v\<rparr>) of
                (hit, s2) \<Rightarrow>
                  if truthy hit then (Inr (the hit), s2)
                  else findPlace_compute sanitized normalized cacheKey s2))"

section \<open>A record of the dataset\<close>

text \<open>The record of the town of Magbass, used in the examples.\<close>

definition magbass :: LocationRecord where
  "magbass =
     \<lparr>idregion = ''NORTHERN'', iddistrict = ''TONKOLILI'', idcouncil = '''',
      idchiefdom = ''KHOLIFA MAMUNTHA/MAYOSSO'', idsection = ''MAMUNTHA'',
      idtown = ''MAGBASS (KHOLIFA MAMUNTHA/MAYOSSO)''\<rparr>"

section \<open>Properties of the rounding\<close>

lemma pow2_powi: "pow2 e = 2 powi e"
  by (simp add: pow2_def power_int_def inverse_eq_divide power_one_over)

lemma pow2_pos: "0 < pow2 e"
  by (simp add: pow2_powi)

lemma pow2_add: "pow2 (a + b) = pow2 a * pow2 b"
  by (simp add: pow2_powi power_int_add)

lemma pow2_mono: "a \<le> b \<Longrightarrow> pow2 a \<le> pow2 b"
  by (simp add: pow2_powi power_int_increasing)

lemma pow2_0: "pow2 0 = 1"
  by (simp add: pow2_def)

lemma pow2_of_int: "0 \<le> k \<Longrightarrow> pow2 k = of_int (2 ^ nat k)"
  by (simp add: pow2_def)

lemma round_half_even_le: "z \<le> of_int n \<Longrightarrow> round_half_even z \<le> n"
proof -
  assume z: "z \<le> of_int n"
  then have f: "\<lfloor>z\<rfloor> \<le> n" by (simp add: floor_le_iff)
  show ?thesis
  proof (cases "\<lfloor>z\<rfloor> = n")
    case True
    with z have "z - of_int \<lfloor>z\<rfloor> \<le> 0" by simp
    then have "z - of_int \<lfloor>z\<rfloor> < 1 / 2" by linarith
    with True show ?thesis by (simp add: round_half_even_def Let_def)
  next
    case False
    with f have "\<lfloor>z\<rfloor> + 1 \<le> n" by simp
    then show ?thesis by (simp add: round_half_even_def Let_def)
  qed
qed

lemma round_half_even_ge: "of_int n \<le> z \<Longrightarrow> n \<le> round_half_even z"
proof -
  assume "of_int n \<le> z"
  then have "n \<le> \<lfloor>z\<rfloor>" by (simp add: le_floor_iff)
  then show ?thesis by (simp add: round_half_even_def Let_def)
qed

lemma round_half_even_near: "\<bar>of_int (round_half_even z) - z\<bar> \<le> 1 / 2"
proof -
  define f where "f = \<lfloor>z\<rfloor>"
  define r where "r = z - of_int f"
  have r: "0 \<le> r" "r < 1" unfolding r_def f_def by linarith+
  have z: "z = of_int f + r" by (simp add: r_def)
  have "round_half_even z = f \<and> r \<le> 1 / 2 \<or> round_half_even z = f + 1 \<and> 1 / 2 \<le> r"
    unfolding round_half_even_def Let_def f_def[symmetric] r_def[symmetric] by auto
  then show ?thesis
  proof
    assume "round_half_even z = f \<and> r \<le> 1 / 2"
    with r show ?thesis by (simp add: z)
  next
    assume "round_half_even z = f + 1 \<and> 1 / 2 \<le> r"
    with r show ?thesis by (simp add: z)
  qed
qed

text \<open>The exponent is the one of the binary representation.\<close>

lemma exponent_bounds:
  assumes "0 < x"
  shows "pow2 (exponent x) \<le> x" and "x < pow2 (exponent x + 1)"
proof -
  obtain a b where q: "quotient_of x = (a, b)" by (cases "quotient_of x")
  then have b: "0 < b" by (rule quotient_of_denom_pos)
  from q have x: "x = of_int a / of_int b" by (rule quotient_of_div)
  with assms b have a: "0 < a" by (simp add: zero_less_divide_iff)
  let ?g = "bitlen a - bitlen b"
  have e: "exponent x = (if pow2 ?g \<le> x then ?g else ?g - 1)"
    by (simp add: exponent_def q Let_def)
  from a have la: "1 \<le> bitlen a" by (simp add: bitlen_alt_def)
  from b have lb: "1 \<le> bitlen b" by (simp add: bitlen_alt_def)
  from la have la': "0 \<le> bitlen a - 1" by simp
  from lb have lb': "0 \<le> bitlen b - 1" by simp
  from bitlen_bounds[OF a]
  have a1: "(2::int) ^ nat (bitlen a - 1) \<le> a" and a2: "a < 2 ^ nat (bitlen a)"
    by simp_all
  from bitlen_bounds[OF b]
  have b1: "(2::int) ^ nat (bitlen b - 1) \<le> b" and b2: "b < 2 ^ nat (bitlen b)"
    by simp_all
  have ra1: "pow2 (bitlen a - 1) \<le> of_int a"
    unfolding pow2_of_int[OF la'] using a1 by (simp only: of_int_le_iff)
  have ra2: "of_int a < pow2 (bitlen a)"
    unfolding pow2_of_int[OF bitlen_nonneg] using a2 by (simp only: of_int_less_iff)
  have rb1: "pow2 (bitlen b - 1) \<le> of_int b"
    unfolding pow2_of_int[OF lb'] using b1 by (simp only: of_int_le_iff)
  have rb2: "of_int b < pow2 (bitlen b)"
    unfolding pow2_of_int[OF bitlen_nonneg] using b2 by (simp only: of_int_less_iff)
  have pb: "(0::rat) < of_int b" using b by simp
  have lo: "pow2 (?g - 1) \<le> x"
  proof -
    have "pow2 (?g - 1) * of_int b \<le> pow2 (?g - 1) * pow2 (bitlen b)"
      using rb2 pow2_pos[of "?g - 1"] by (simp add: less_imp_le)
    also have "\<dots> = pow2 (bitlen a - 1)" by (simp add: pow2_add[symmetric])
    also have "\<dots> \<le> of_int a" by (rule ra1)
    finally show ?thesis using pb by (simp add: x pos_le_divide_eq)
  qed
  have hi: "x < pow2 (?g + 1)"
  proof -
    have "of_int a < pow2 (bitlen a)" by (rule ra2)
    also have "\<dots> = pow2 (?g + 1) * pow2 (bitlen b - 1)" by (simp add: pow2_add[symmetric])
    also have "\<dots> \<le> pow2 (?g + 1) * of_int b"
      using rb1 pow2_pos[of "?g + 1"] by simp
    finally show ?thesis using pb by (simp add: x pos_divide_less_eq)
  qed
  show "pow2 (exponent x) \<le> x" using lo by (simp add: e)
  show "x < pow2 (exponent x + 1)" using hi by (auto simp: e not_le)
qed

lemma exponent_le_0:
  assumes "0 < x" and "x \<le> 1"
  shows "exponent x \<le> 0"
proof (rule ccontr)
  assume "\<not> exponent x \<le> 0"
  then have "1 \<le> exponent x" by simp
  then have "pow2 1 \<le> pow2 (exponent x)" by (rule pow2_mono)
  with exponent_bounds(1)[OF assms(1)] assms(2) show False by (simp add: pow2_def)
qed

lemma round_double_nonneg: "0 \<le> x \<Longrightarrow> 0 \<le> round_double x"
proof -
  assume x: "0 \<le> x"
  have "0 \<le> round_half_even (x / pow2 e)" for e
    using x pow2_pos[of e] round_half_even_ge[of 0 "x / pow2 e"] by simp
  then show ?thesis using pow2_pos by (simp add: round_double_def Let_def less_imp_le)
qed

lemma round_double_le_1:
  assumes "x \<le> 1"
  shows "round_double x \<le> 1"
proof (cases "0 < x")
  case False
  then have x: "x \<le> 0" by simp
  have "round_half_even (x / pow2 e) \<le> 0" for e
    using x pow2_pos[of e] round_half_even_le[of "x / pow2 e" 0]
    by (simp add: divide_nonpos_pos less_imp_le)
  then have "round_double x \<le> 0"
    using pow2_pos by (simp add: round_double_def Let_def mult_le_0_iff less_imp_le)
  then show ?thesis by simp
next
  case True
  let ?e = "exponent x"
  let ?u = "pow2 (?e - 52)"
  from exponent_le_0[OF True assms] have e: "?e \<le> 0" .
  have u: "0 < ?u" by (rule pow2_pos)
  have inv: "1 / ?u = of_int (2 ^ nat (52 - ?e))"
  proof -
    have "?u * pow2 (52 - ?e) = 1" by (simp add: pow2_add[symmetric] pow2_0)
    moreover have "pow2 (52 - ?e) = of_int (2 ^ nat (52 - ?e))" using e by (simp add: pow2_def)
    ultimately show ?thesis using u by (simp add: field_simps)
  qed
  have "x / ?u \<le> 1 / ?u" using assms u by (simp add: divide_right_mono less_imp_le)
  with inv have "round_half_even (x / ?u) \<le> 2 ^ nat (52 - ?e)"
    using round_half_even_le[of "x / ?u" "2 ^ nat (52 - ?e)"] by simp
  then have "(of_int (round_half_even (x / ?u)) :: rat) \<le> of_int (2 ^ nat (52 - ?e))"
    by (simp only: of_int_le_iff)
  then have "of_int (round_half_even (x / ?u)) * ?u \<le> of_int (2 ^ nat (52 - ?e)) * ?u"
    using u by (simp add: mult_right_mono less_imp_le)
  also have "\<dots> = 1" using inv u by (simp add: field_simps)
  finally show ?thesis using True by (simp add: round_double_def Let_def)
qed

lemma abs_scale:
  fixes a b u :: rat
  assumes "0 < u"
  shows "\<bar>a - b / u\<bar> * u = \<bar>a * u - b\<bar>"
proof -
  have "\<bar>a - b / u\<bar> * u = \<bar>a - b / u\<bar> * \<bar>u\<bar>" using assms by simp
  also have "\<dots> = \<bar>(a - b / u) * u\<bar>" by (simp only: abs_mult)
  also have "(a - b / u) * u = a * u - b" using assms by (simp add: left_diff_distrib)
  finally show ?thesis .
qed

text \<open>The result is at most half a unit in the last place from the argument.\<close>

lemma round_double_nearest:
  assumes "x \<noteq> 0"
  shows "\<bar>round_double x - x\<bar> \<le> pow2 (exponent \<bar>x\<bar> - 52) / 2"
proof -
  let ?u = "pow2 (exponent \<bar>x\<bar> - 52)"
  have u: "0 < ?u" by (rule pow2_pos)
  have "\<bar>of_int (round_half_even (x / ?u)) - x / ?u\<bar> \<le> 1 / 2"
    by (rule round_half_even_near)
  then have "\<bar>of_int (round_half_even (x / ?u)) - x / ?u\<bar> * ?u \<le> 1 / 2 * ?u"
    using u by (simp add: mult_right_mono less_imp_le)
  then have "\<bar>of_int (round_half_even (x / ?u)) * ?u - x\<bar> \<le> ?u / 2"
    by (simp add: abs_scale[OF u])
  then show ?thesis using assms by (simp add: round_double_def Let_def)
qed

text \<open>The doubles of the literals \<open>0.3\<close> and \<open>0.8\<close>, and the two subtractions that land
  beside \<open>0.3\<close> and \<open>0.2\<close>: \<open>1 - 7 / 10\<close> exceeds \<open>0.3\<close>, and \<open>1 - 4 / 5\<close> falls short of
  \<open>0.2\<close>.\<close>

lemma double_3_10: "round_double (3 / 10) = 5404319552844595 / 18014398509481984"
  by code_simp

lemma double_8_10: "round_double (8 / 10) = 3602879701896397 / 4503599627370496"
  by code_simp

lemma double_1_minus_7_10: "round_double (3 / 10) < round_double (1 - round_double (7 / 10))"
  by code_simp

lemma double_1_minus_4_5: "round_double (1 - round_double (4 / 5)) < round_double (2 / 10)"
  by code_simp

lemma threshold_below_containment: "round_double (3 / 10) < round_double (8 / 10)"
  by code_simp

lemma weighted_le_1:
  assumes "s \<le> 1"
  shows "round_double (s * round_double (8 / 10)) \<le> 1"
proof -
  have c: "0 \<le> round_double (8 / 10)" "round_double (8 / 10) \<le> 1"
    by (rule round_double_nonneg, simp) (rule round_double_le_1, simp)
  have "s * round_double (8 / 10) \<le> 1"
  proof (cases "0 \<le> s")
    case True
    with assms c have "s * round_double (8 / 10) \<le> 1 * 1" by (intro mult_mono) simp_all
    then show ?thesis by simp
  next
    case False
    with c(1) have "s * round_double (8 / 10) \<le> 0" by (simp add: mult_le_0_iff)
    then show ?thesis by simp
  qed
  then show ?thesis by (rule round_double_le_1)
qed

section \<open>Properties of the string functions\<close>

lemmas char_defs =
  uppers_def lowers_def latin_uppers_def latin_lowers_def digits_def is_space_def is_word_def
  is_digit_def toLowerCase_char_def toUpperCase_char_def word_space_hyphen_def

lemma kept_lower: "word_space_hyphen (toLowerCase_char c) = word_space_hyphen c"
  by (auto simp: char_defs)

lemma lower_idem: "toLowerCase_char (toLowerCase_char c) = toLowerCase_char c"
  by (auto simp: toLowerCase_char_def uppers_def lowers_def latin_uppers_def latin_lowers_def)

lemma space_lower: "is_space (toLowerCase_char c) = is_space c"
  by (auto simp: toLowerCase_char_def uppers_def lowers_def latin_uppers_def latin_lowers_def
      is_space_def)

lemma kept_space: "word_space_hyphen CHR '' ''"
  by (simp add: word_space_hyphen_def is_space_def)

lemma lower_space: "toLowerCase_char CHR '' '' = CHR '' ''"
  by (simp add: char_defs)

text \<open>A string has clean edges when it neither starts nor ends with white space.\<close>

definition edges_ok :: "string \<Rightarrow> bool" where
  "edges_ok s \<longleftrightarrow> s = [] \<or> (\<not> is_space (hd s) \<and> \<not> is_space (last s))"

lemma rev_dropWhile_rev_last:
  "rev (dropWhile P (rev xs)) = [] \<or> \<not> P (last (rev (dropWhile P (rev xs))))"
  by (metis hd_dropWhile last_rev rev.simps(1))

lemma rev_dropWhile_rev_hd:
  "rev (dropWhile P (rev xs)) \<noteq> [] \<Longrightarrow> hd (rev (dropWhile P (rev xs))) = hd xs"
  by (metis Nil_is_rev_conv dropWhile_eq_Nil_conv dropWhile_last hd_rev last_rev)

lemma trim_edges: "edges_ok (trim s)"
proof (cases "trim s = []")
  case True then show ?thesis by (simp add: edges_ok_def)
next
  case False
  let ?a = "dropWhile is_space s"
  let ?t = "rev (dropWhile is_space (rev ?a))"
  have t: "trim s = ?t" by (simp only: trim_def)
  from False t have ne: "?t \<noteq> []" by simp
  then have "?a \<noteq> []" by (cases "?a") simp_all
  then have "\<not> is_space (hd ?a)" by (rule hd_dropWhile)
  with rev_dropWhile_rev_hd[OF ne] have h: "\<not> is_space (hd ?t)" by metis
  from rev_dropWhile_rev_last[of is_space ?a] ne have l: "\<not> is_space (last ?t)"
    by blast
  from h l show ?thesis unfolding edges_ok_def t by blast
qed

lemma trim_id: "edges_ok z \<Longrightarrow> trim z = z"
  unfolding edges_ok_def trim_def
  by (metis last_rev dropWhile_eq_self_iff rev_swap rev.simps(1))

lemma set_trim: "set (trim s) \<subseteq> set s"
  unfolding trim_def by (auto dest!: set_dropWhileD)

lemma collapse_Nil_iff: "collapse_ws s = [] \<longleftrightarrow> s = []"
  by (cases s) auto

lemma collapse_hd: "s \<noteq> [] \<Longrightarrow> is_space (hd (collapse_ws s)) = is_space (hd s)"
  by (cases s) (auto simp: is_space_def)

lemma collapse_last: "s \<noteq> [] \<Longrightarrow> \<not> is_space (last s) \<Longrightarrow> last (collapse_ws s) = last s"
proof (induction s rule: collapse_ws.induct)
  case 1 then show ?case by simp
next
  case (2 c cs)
  show ?case
  proof (cases "is_space c")
    case True
    let ?u = "dropWhile is_space cs"
    from True "2.prems" have cs: "cs \<noteq> []" by auto
    with "2.prems" have lcs: "\<not> is_space (last cs)" by simp
    from cs have "last cs \<in> set cs" by simp
    with lcs have lu: "last ?u = last cs" and une: "?u \<noteq> []"
      by (auto simp: dropWhile_last dropWhile_eq_Nil_conv)
    from "2.IH"(1)[OF True une] lu lcs have "last (collapse_ws ?u) = last cs" by simp
    moreover from une have "collapse_ws ?u \<noteq> []" by (simp add: collapse_Nil_iff)
    ultimately show ?thesis using True cs by simp
  next
    case False
    show ?thesis
    proof (cases "cs = []")
      case True then show ?thesis using False by simp
    next
      case cs: False
      with "2.prems" have "\<not> is_space (last cs)" by simp
      from "2.IH"(2)[OF False cs this] show ?thesis
        using False cs by (simp add: collapse_Nil_iff)
    qed
  qed
qed

lemma collapse_edges: "edges_ok s \<Longrightarrow> edges_ok (collapse_ws s)"
proof (cases "s = []")
  case True then show ?thesis by (simp add: edges_ok_def)
next
  case False
  assume "edges_ok s"
  with False have h: "\<not> is_space (hd s)" and l: "\<not> is_space (last s)"
    by (auto simp: edges_ok_def)
  from collapse_hd[OF False] h have "\<not> is_space (hd (collapse_ws s))" by simp
  moreover from collapse_last[OF False l] l have "\<not> is_space (last (collapse_ws s))" by simp
  ultimately show ?thesis by (simp add: edges_ok_def)
qed

lemma dropWhile_collapse:
  "s = [] \<or> \<not> is_space (hd s) \<Longrightarrow> dropWhile is_space (collapse_ws s) = collapse_ws s"
  by (cases s) auto

lemma collapse_idem: "collapse_ws (collapse_ws s) = collapse_ws s"
proof (induction s rule: collapse_ws.induct)
  case 1 then show ?case by simp
next
  case (2 c cs)
  show ?case
  proof (cases "is_space c")
    case True
    let ?u = "dropWhile is_space cs"
    have "?u = [] \<or> \<not> is_space (hd ?u)"
      by (metis hd_dropWhile)
    then have "dropWhile is_space (collapse_ws ?u) = collapse_ws ?u"
      by (rule dropWhile_collapse)
    then show ?thesis using True "2.IH"(1) by (simp add: is_space_def)
  next
    case False
    then show ?thesis using 2 by simp
  qed
qed

lemma set_collapse:
  "c \<in> set (collapse_ws s) \<Longrightarrow> c = CHR '' '' \<or> (c \<in> set s \<and> \<not> is_space c)"
proof (induction s rule: collapse_ws.induct)
  case 1 then show ?case by simp
next
  case (2 d cs)
  then show ?case
    by (auto split: if_splits dest: set_dropWhileD)
qed

lemma lower_fix: "(\<forall>c\<in>set s. toLowerCase_char c = c) \<Longrightarrow> toLowerCase s = s"
  by (simp add: toLowerCase_def map_idI)

lemma normalize_kept_input:
  assumes "\<forall>c\<in>set s. word_space_hyphen c"
  shows "normalize (normalize s) = normalize s"
proof (cases "s = []")
  case True then show ?thesis by (simp add: normalize_def)
next
  case False
  let ?t = "collapse_ws (trim (toLowerCase s))"
  have kl: "\<forall>c\<in>set (toLowerCase s). word_space_hyphen c"
    using assms by (auto simp: toLowerCase_def kept_lower)
  have fl: "\<forall>c\<in>set (toLowerCase s). toLowerCase_char c = c"
    by (auto simp: toLowerCase_def lower_idem)
  have kt: "\<forall>c\<in>set ?t. word_space_hyphen c"
    using kl set_trim set_collapse kept_space by blast
  have ft: "\<forall>c\<in>set ?t. toLowerCase_char c = c"
    using fl set_trim set_collapse lower_space by blast
  have N: "normalize s = ?t" using False kt by (simp add: normalize_def)
  have e: "edges_ok ?t" by (intro collapse_edges trim_edges)
  have "normalize ?t = ?t"
    using kt by (simp add: normalize_def lower_fix[OF ft] trim_id[OF e] collapse_idem)
  with N show ?thesis by simp
qed

lemma normalize_kept: "\<forall>c\<in>set (normalize s). word_space_hyphen c"
  by (simp add: normalize_def)

section \<open>Properties of the validator\<close>

lemmas rx_defs =
  SQL_INJECTION_PATTERNS_def BLOCKED_PATTERNS_def seqs_def alts_def lit_def plus_def
  rx_s_def rx_w_def rx_d_def rx_dot_def

text \<open>A pattern is blind to white space when it has no match that starts inside a string
  of white space only.\<close>

definition blind :: "rx \<Rightarrow> bool" where
  "blind r \<longleftrightarrow> (\<forall>p s. list_all is_space s \<longrightarrow> rx_match r (p, s) = [])"

lemma lower_cases: "c \<in> set (uppers @ latin_uppers) \<or> toLowerCase_char c = c"
  by (auto simp: toLowerCase_char_def uppers_def lowers_def latin_uppers_def latin_lowers_def)

lemma space_not_upper: "is_space x \<Longrightarrow> x \<notin> set (uppers @ latin_uppers)"
  by (auto simp: is_space_def uppers_def latin_uppers_def)

lemma space_lower_fix: "is_space x \<Longrightarrow> toLowerCase_char x = x"
  using lower_cases space_not_upper by blast

lemma blind_ci:
  assumes "\<not> is_space (toLowerCase_char c)"
  shows "blind (ci c)"
  unfolding blind_def
proof (intro allI impI)
  fix p s assume sp: "list_all is_space s"
  show "rx_match (ci c) (p, s) = []"
  proof (cases s)
    case Nil
    then show ?thesis by (simp add: ci_def)
  next
    case (Cons x xs)
    with sp have "is_space x" by simp
    with assms have "toLowerCase_char x \<noteq> toLowerCase_char c"
      using space_lower_fix[of x] by metis
    with Cons show ?thesis by (simp add: ci_def)
  qed
qed

lemma blind_Cat1: "blind a \<Longrightarrow> blind (Cat a b)"
  by (simp add: blind_def)

lemma blind_Bnd_Cat: "blind b \<Longrightarrow> blind (Cat Bnd b)"
  by (simp add: blind_def)

lemma blind_Alt: "blind a \<Longrightarrow> blind b \<Longrightarrow> blind (Alt a b)"
  by (simp add: blind_def)

lemma blind_lit: "\<not> is_space (toLowerCase_char c) \<Longrightarrow> blind (lit (c # cs))"
  by (simp add: lit_def blind_Cat1 blind_ci)

lemma nonspace_chars:
  "\<not> is_space (toLowerCase_char CHR ''o'')" "\<not> is_space (toLowerCase_char CHR ''a'')"
  "\<not> is_space (toLowerCase_char CHR 0x27)" "\<not> is_space (toLowerCase_char CHR ''-'')"
  "\<not> is_space (toLowerCase_char CHR ''#'')" "\<not> is_space (toLowerCase_char CHR ''/'')"
  "\<not> is_space (toLowerCase_char CHR ''*'')" "\<not> is_space (toLowerCase_char CHR ''b'')"
  "\<not> is_space (toLowerCase_char CHR ''s'')" "\<not> is_space (toLowerCase_char CHR ''w'')"
  "\<not> is_space (toLowerCase_char CHR ''d'')" "\<not> is_space (toLowerCase_char CHR ''u'')"
  "\<not> is_space (toLowerCase_char CHR ''<'')" "\<not> is_space (toLowerCase_char CHR ''j'')"
  "\<not> is_space (toLowerCase_char CHR ''e'')" "\<not> is_space (toLowerCase_char CHR ''v'')"
  "\<not> is_space (toLowerCase_char CHR ''i'')" "\<not> is_space (toLowerCase_char CHR ''r'')"
  "\<not> is_space (toLowerCase_char CHR ''.'')" "\<not> is_space (toLowerCase_char CHR ''f'')"
  by (simp_all add: char_defs)

lemma all_patterns_blind:
  "list_all blind SQL_INJECTION_PATTERNS" "list_all blind BLOCKED_PATTERNS"
  by (simp_all add: SQL_INJECTION_PATTERNS_def BLOCKED_PATTERNS_def seqs_def alts_def
      blind_Cat1 blind_Bnd_Cat blind_Alt blind_lit nonspace_chars)

lemma blind_test:
  assumes "blind r" and "list_all is_space s"
  shows "rx_test r s i = (False, 0)"
proof -
  have "rx_match r (cursor_at s j) = []" for j
  proof -
    have "list_all is_space (drop j s)"
      using assms(2) by (auto simp: list_all_iff dest: in_set_dropD)
    with assms(1) show ?thesis by (simp add: blind_def cursor_at_def)
  qed
  then have "List.find (\<lambda>j. rx_match r (cursor_at s j) \<noteq> []) js = None" for js
    by (simp add: find_None_iff)
  then show ?thesis by (simp add: rx_test_def)
qed

lemma blind_test_patterns:
  "list_all blind ps \<Longrightarrow> list_all is_space s \<Longrightarrow> fst (test_patterns ps is s) = False"
proof (induction ps arbitrary: "is")
  case Nil
  then show ?case by simp
next
  case (Cons p ps)
  show ?case
  proof (cases "is")
    case Nil
    then show ?thesis by simp
  next
    case (Cons i is')
    from Cons.prems have "rx_test p s i = (False, 0)" by (simp add: blind_test)
    moreover from Cons.prems Cons.IH[of is'] have "fst (test_patterns ps is' s) = False" by simp
    ultimately show ?thesis using Cons by (simp add: split_beta)
  qed
qed

lemma set_remove_tags: "set (remove_tags s) \<subseteq> set s"
proof (induction s rule: remove_tags.induct)
  case 1 then show ?case by simp
next
  case (2 c cs)
  have "set (tl (dropWhile (\<lambda>x. x \<noteq> CHR ''>'') cs)) \<subseteq> set cs"
    by (metis list.set_sel(2) set_dropWhileD subsetI tl_Nil)
  with 2 show ?case by (auto split: if_splits)
qed

lemma trim_all_space: "list_all is_space s \<Longrightarrow> trim s = []"
  by (auto simp: trim_def list_all_iff dest: set_dropWhileD)

lemma collapse_all_space: "list_all is_space s \<Longrightarrow> list_all is_space (collapse_ws s)"
  using set_collapse by (fastforce simp: list_all_iff is_space_def)

text \<open>White space passes every pattern, whatever the patterns' \<open>lastIndex\<close>, and is sanitized
  to the empty string.\<close>

lemma sanitize_blank:
  assumes "list_all is_space s" and "length s \<le> MAX_INPUT_LENGTH"
  shows "fst (sanitize st s) = Inr []"
proof (cases "s = []")
  case True then show ?thesis by (simp add: sanitize_def)
next
  case False
  have "list_all is_space (filter (\<lambda>c. \<not> dangerous c) (remove_tags s))"
    using assms(1) set_remove_tags[of s] by (auto simp: list_all_iff)
  then have "trim (collapse_ws (filter (\<lambda>c. \<not> dangerous c) (remove_tags s))) = []"
    by (intro trim_all_space collapse_all_space)
  moreover have "fst (test_patterns SQL_INJECTION_PATTERNS (sqlLastIndex st) s) = False"
    "fst (test_patterns BLOCKED_PATTERNS (blockedLastIndex st) s) = False"
    using assms(1) by (simp_all add: blind_test_patterns all_patterns_blind)
  ultimately show ?thesis
    using False assms(2) by (simp add: sanitize_def split_beta)
qed

lemma sanitize_not_rate_limit: "fst (sanitize st s) \<noteq> Inl RateLimitExceeded"
  by (simp add: sanitize_def split_beta)

lemma sanitizeSearchQuery_not_rate_limit:
  "fst (sanitizeSearchQuery st s) \<noteq> Inl RateLimitExceeded"
  by (simp add: sanitizeSearchQuery_def sanitize_not_rate_limit)

section \<open>The entry points of SearchService\<close>

text \<open>Both entry points begin with the admission check and leave the map of windows as the
  check returned it.\<close>

lemma autocomplete_denied:
  "\<not> fst (checkRateLimit c (rateLimit svc) 50 60000 now)
     \<Longrightarrow> fst (autocomplete svc q c limit now) = Inl RateLimitExceeded"
  by (simp add: autocomplete_def split_beta)

lemma search_denied:
  "\<not> fst (checkRateLimit c (rateLimit svc) 30 60000 now)
     \<Longrightarrow> fst (search svc q options c now) = Inl RateLimitExceeded"
  by (simp add: search_def split_beta)

lemma autocomplete_admitted:
  assumes "fst (checkRateLimit c (rateLimit svc) 50 60000 now)"
  shows "fst (autocomplete svc q c limit now) =
     (case fst (sanitizeSearchQuery (patterns svc) q) of
        Inl e \<Rightarrow> Inl e
      | Inr sanitized \<Rightarrow>
          if length sanitized < 2 then Inr []
          else Inr (map fst (slice0 (sort_by_score snd
                 (fst (autocomplete_scan (normalize sanitized) (searchIndex svc)))) limit)))"
  using assms
  by (cases "fst (sanitizeSearchQuery (patterns svc) q)")
    (auto simp: autocomplete_def Let_def split_beta)

lemma search_admitted:
  assumes "fst (checkRateLimit c (rateLimit svc) 30 60000 now)"
  shows "fst (search svc q options c now) =
     (case fst (sanitizeSearchQuery (patterns svc) q) of
        Inl e \<Rightarrow> Inl e
      | Inr sanitized \<Rightarrow>
          if sanitized = [] then Inr []
          else Inr (search_results (searchIndex svc) options sanitized))"
  using assms
  by (cases "fst (sanitizeSearchQuery (patterns svc) q)")
    (auto simp: search_def split_beta)

lemma autocomplete_rateLimit:
  "rateLimit (snd (autocomplete svc q c limit now))
     = snd (checkRateLimit c (rateLimit svc) 50 60000 now)"
  by (cases "fst (sanitizeSearchQuery (patterns svc) q)")
    (simp_all add: autocomplete_def Let_def split_beta)

lemma search_rateLimit:
  "rateLimit (snd (search svc q options c now))
     = snd (checkRateLimit c (rateLimit svc) 30 60000 now)"
  by (cases "fst (sanitizeSearchQuery (patterns svc) q)")
    (simp_all add: search_def split_beta)

lemma autocomplete_denied_iff:
  "fst (autocomplete svc q c limit now) = Inl RateLimitExceeded
     \<longleftrightarrow> \<not> fst (checkRateLimit c (rateLimit svc) 50 60000 now)"
proof (cases "fst (checkRateLimit c (rateLimit svc) 50 60000 now)")
  case False
  then show ?thesis by (simp add: autocomplete_denied)
next
  case True
  show ?thesis
    using sanitizeSearchQuery_not_rate_limit[of "patterns svc" q] True
    by (cases "fst (sanitizeSearchQuery (patterns svc) q)")
      (simp_all add: autocomplete_admitted[OF True])
qed

lemma search_denied_iff:
  "fst (search svc q options c now) = Inl RateLimitExceeded
     \<longleftrightarrow> \<not> fst (checkRateLimit c (rateLimit svc) 30 60000 now)"
proof (cases "fst (checkRateLimit c (rateLimit svc) 30 60000 now)")
  case False
  then show ?thesis by (simp add: search_denied)
next
  case True
  show ?thesis
    using sanitizeSearchQuery_not_rate_limit[of "patterns svc" q] True
    by (cases "fst (sanitizeSearchQuery (patterns svc) q)")
      (simp_all add: search_admitted[OF True])
qed

section \<open>The index holds every entity of the records\<close>

lemma index_get_update:
  "index_get (AList.update k v index) k' = (if k' = k then v else index_get index k')"
  by (simp add: index_get_def update_conv')

lemma addEntryToKey_get:
  "index_get (addEntryToKey k entry index) k' =
     (if k' = k
      then (if list_ex (\<lambda>e. same_entry e entry) (index_get index k)
            then index_get index k else index_get index k @ [entry])
      else index_get index k')"
proof -
  have "addEntryToKey k entry index =
      AList.update k (if list_ex (\<lambda>e. same_entry e entry) (index_get index k)
                      then index_get index k else index_get index k @ [entry]) index"
    by (simp add: addEntryToKey_def Let_def index_get_def)
  then show ?thesis by (simp only: index_get_update)
qed

lemma addEntryToKey_mono:
  "set (index_get index k') \<subseteq> set (index_get (addEntryToKey k entry index) k')"
  by (auto simp: addEntryToKey_get)

lemma addEntryToKey_adds:
  "\<exists>e\<in>set (index_get (addEntryToKey k entry index) k). same_entry e entry"
  by (auto simp: addEntryToKey_get list_ex_iff same_entry_def)

lemma fold_words_mono:
  "set (index_get index k')
     \<subseteq> set (index_get (fold (\<lambda>word idx. if 2 < length word
                                         then addEntryToKey word entry idx else idx) ws index) k')"
proof (induction ws arbitrary: index)
  case Nil
  then show ?case by simp
next
  case (Cons w ws)
  show ?case
    using addEntryToKey_mono[of index k' w entry] Cons.IH by (simp; blast)
qed

lemma addToIndex_mono:
  "set (index_get index k') \<subseteq> set (index_get (addToIndex nm ty rec index) k')"
proof -
  have m: "set (index_get a k') \<subseteq> set (index_get b k') \<Longrightarrow>
           set (index_get index k') \<subseteq> set (index_get a k') \<Longrightarrow>
           set (index_get index k') \<subseteq> set (index_get b k')" for a b
    by blast
  show ?thesis
    unfolding addToIndex_def Let_def
    by (auto intro!: m[OF addEntryToKey_mono] m[OF fold_words_mono] addEntryToKey_mono
        simp del: fold_simps)
qed

text \<open>An entry for the entity \<open>(nm, ty)\<close> under the key of its normalized name.\<close>

definition indexed :: "IndexMap \<Rightarrow> string \<Rightarrow> LocationType \<Rightarrow> bool" where
  "indexed index nm ty \<longleftrightarrow>
     list_ex (\<lambda>e. e_name e = trim nm \<and> e_type e = ty \<and> e_normalized e = normalize nm)
       (index_get index (normalize nm))"

lemma indexed_mono:
  "set (index_get index (normalize nm)) \<subseteq> set (index_get index' (normalize nm))
     \<Longrightarrow> indexed index nm ty \<Longrightarrow> indexed index' nm ty"
  by (auto simp: indexed_def list_ex_iff)

lemma addToIndex_adds:
  assumes "trim nm \<noteq> []"
  shows "indexed (addToIndex nm ty rec index) nm (normalizeLocationType ty)"
proof -
  let ?entry = "\<lparr>e_name = trim nm, e_type = normalizeLocationType ty,
      e_normalized = normalize nm, e_record = rec, e_partialMatch = False\<rparr>"
  let ?i1 = "addEntryToKey (normalize nm) ?entry index"
  from assms have ne: "nm \<noteq> []" by (auto simp: trim_def)
  have "indexed ?i1 nm (normalizeLocationType ty)"
    using addEntryToKey_adds[of "normalize nm" ?entry index]
    by (auto simp: indexed_def list_ex_iff same_entry_def)
  moreover have "set (index_get ?i1 (normalize nm))
      \<subseteq> set (index_get (addToIndex nm ty rec index) (normalize nm))"
  proof -
    have m: "set (index_get a k') \<subseteq> set (index_get b k') \<Longrightarrow>
           set (index_get ?i1 k') \<subseteq> set (index_get a k') \<Longrightarrow>
           set (index_get ?i1 k') \<subseteq> set (index_get b k')" for a b k'
      by blast
    show ?thesis
      using assms ne unfolding addToIndex_def Let_def
      by (auto intro!: m[OF addEntryToKey_mono] fold_words_mono simp del: fold_simps)
  qed
  ultimately show ?thesis by (rule indexed_mono[rotated])
qed

text \<open>The six named entities of a record, with the type tag under which they are indexed.\<close>

definition entities :: "LocationRecord \<Rightarrow> (string \<times> LocationType) list" where
  "entities r =
     [(idregion r, Region), (iddistrict r, District), (idcouncil r, Council),
      (idchiefdom r, Chiefdom), (idsection r, Section), (idtown r, Town)]"

lemma type_tags:
  "normalizeLocationType ''region'' = Region" "normalizeLocationType ''district'' = District"
  "normalizeLocationType ''council'' = Council" "normalizeLocationType ''chiefdom'' = Chiefdom"
  "normalizeLocationType ''section'' = Section" "normalizeLocationType ''town'' = Town"
  by code_simp+

lemma index_record_mono:
  "set (index_get index k) \<subseteq> set (index_get (index_record r index) k)"
  unfolding index_record_def
  by (meson addToIndex_mono subset_trans)

lemma index_record_adds:
  assumes "(nm, ty) \<in> set (entities r)" and "trim nm \<noteq> []"
  shows "indexed (index_record r index) nm ty"
proof -
  have step: "indexed a nm ty \<Longrightarrow> indexed (addToIndex n' t' r a) nm ty" for a n' t'
    using addToIndex_mono indexed_mono by blast
  from assms(1) consider "nm = idregion r \<and> ty = Region" | "nm = iddistrict r \<and> ty = District"
    | "nm = idcouncil r \<and> ty = Council" | "nm = idchiefdom r \<and> ty = Chiefdom"
    | "nm = idsection r \<and> ty = Section" | "nm = idtown r \<and> ty = Town"
    by (auto simp: entities_def)
  then show ?thesis
  proof cases
    case 1
    have base: "indexed (addToIndex (idregion r) ''region'' r a) nm ty" for a
      using addToIndex_adds[OF assms(2), of "''region''" r a] 1 by (simp add: type_tags)
    show ?thesis
      unfolding index_record_def by (rule step, rule step, rule step, rule step, rule step, rule base)
  next
    case 2
    have base: "indexed (addToIndex (iddistrict r) ''district'' r a) nm ty" for a
      using addToIndex_adds[OF assms(2), of "''district''" r a] 2 by (simp add: type_tags)
    show ?thesis
      unfolding index_record_def by (rule step, rule step, rule step, rule step, rule base)
  next
    case 3
    have base: "indexed (addToIndex (idcouncil r) ''council'' r a) nm ty" for a
      using addToIndex_adds[OF assms(2), of "''council''" r a] 3 by (simp add: type_tags)
    show ?thesis
      unfolding index_record_def by (rule step, rule step, rule step, rule base)
  next
    case 4
    have base: "indexed (addToIndex (idchiefdom r) ''chiefdom'' r a) nm ty" for a
      using addToIndex_adds[OF assms(2), of "''chiefdom''" r a] 4 by (simp add: type_tags)
    show ?thesis
      unfolding index_record_def by (rule step, rule step, rule base)
  next
    case 5
    have base: "indexed (addToIndex (idsection r) ''section'' r a) nm ty" for a
      using addToIndex_adds[OF assms(2), of "''section''" r a] 5 by (simp add: type_tags)
    show ?thesis
      unfolding index_record_def by (rule step, rule base)
  next
    case 6
    have base: "indexed (addToIndex (idtown r) ''town'' r a) nm ty" for a
      using addToIndex_adds[OF assms(2), of "''town''" r a] 6 by (simp add: type_tags)
    show ?thesis
      unfolding index_record_def by (rule base)
  qed
qed

lemma buildSearchIndex_mono:
  "set (index_get index k) \<subseteq> set (index_get (buildSearchIndex rs index) k)"
  unfolding buildSearchIndex_def
proof (induction rs arbitrary: index)
  case Nil
  then show ?case by simp
next
  case (Cons r rs)
  from index_record_mono[of index k r] Cons.IH[of "index_record r index"]
  show ?case by (simp; blast)
qed

lemma buildSearchIndex_indexed:
  assumes "r \<in> set rs" and "(nm, ty) \<in> set (entities r)" and "trim nm \<noteq> []"
  shows "indexed (buildSearchIndex rs index) nm ty"
  using assms(1)
proof (induction rs arbitrary: index)
  case Nil
  then show ?case by simp
next
  case (Cons a rs)
  show ?case
  proof (cases "r = a")
    case True
    have "indexed (index_record a index) nm ty"
      using index_record_adds[OF assms(2,3)] True by simp
    moreover have "set (index_get (index_record a index) (normalize nm))
        \<subseteq> set (index_get (buildSearchIndex (a # rs) index) (normalize nm))"
      using buildSearchIndex_mono[of "index_record a index" "normalize nm" rs]
      by (simp add: buildSearchIndex_def)
    ultimately show ?thesis by (rule indexed_mono[rotated])
  next
    case False
    with Cons.prems have "r \<in> set rs" by simp
    from Cons.IH[OF this, of "index_record a index"] show ?thesis
      by (simp add: buildSearchIndex_def)
  qed
qed

section \<open>The exact tier finds an indexed entity\<close>

lemma type_string_no_hyphen: "CHR ''-'' \<notin> set (type_string t)"
  by (cases t) simp_all

lemma type_string_inj: "type_string t = type_string t' \<Longrightarrow> t = t'"
  by (cases t; cases t') simp_all

lemma split_at_first:
  "c \<notin> set xs \<Longrightarrow> c \<notin> set xs' \<Longrightarrow> xs @ c # ys = xs' @ c # ys'
     \<Longrightarrow> xs = xs' \<and> ys = ys'"
proof (induction xs arbitrary: xs')
  case Nil
  then show ?case by (cases xs') auto
next
  case (Cons a xs)
  then show ?case by (cases xs') auto
qed

lemma seen_key_inj:
  assumes "n @ ''-'' @ type_string t = n' @ ''-'' @ type_string t'"
  shows "n = n' \<and> t = t'"
proof -
  from assms have "rev (n @ ''-'' @ type_string t) = rev (n' @ ''-'' @ type_string t')"
    by (rule arg_cong)
  then have eq: "rev (type_string t) @ CHR ''-'' # rev n = rev (type_string t') @ CHR ''-'' # rev n'"
    by simp
  have h1: "CHR ''-'' \<notin> set (rev (type_string t))"
    and h2: "CHR ''-'' \<notin> set (rev (type_string t'))"
    using type_string_no_hyphen by simp_all
  have "rev (type_string t) = rev (type_string t') \<and> rev n = rev n'"
    by (rule split_at_first[OF h1 h2 eq])
  then show ?thesis using type_string_inj by simp
qed

text \<open>In the exact tier every key in \<open>seen\<close> belongs to a result of score 1.\<close>

definition seen_ok :: "SearchResult list \<times> string list \<Rightarrow> bool" where
  "seen_ok st \<longleftrightarrow>
     (\<forall>k\<in>set (snd st). \<exists>r\<in>set (fst st).
        k = r_name r @ ''-'' @ type_string (r_type r) \<and> r_score r = 1)"

lemma exact_entry_seen_ok: "seen_ok st \<Longrightarrow> seen_ok (exact_entry types e st)"
  by (cases st) (auto simp: seen_ok_def exact_entry_def createSearchResult_def seen_key_def)

lemma exact_entry_mono: "set (fst st) \<subseteq> set (fst (exact_entry types e st))"
  by (cases st) (auto simp: exact_entry_def)

lemma exact_entry_found:
  assumes "seen_ok st" and "e_type e \<in> set types"
  shows "\<exists>r\<in>set (fst (exact_entry types e st)).
           r_name r = e_name e \<and> r_type r = e_type e \<and> r_score r = 1"
proof (cases "seen_key e \<in> set (snd st)")
  case True
  with assms(1) obtain r where r: "r \<in> set (fst st)"
      "seen_key e = r_name r @ ''-'' @ type_string (r_type r)" "r_score r = 1"
    by (auto simp: seen_ok_def)
  from r(2) have "e_name e = r_name r \<and> e_type e = r_type r"
    unfolding seen_key_def by (rule seen_key_inj)
  with r exact_entry_mono[of st types e] show ?thesis by auto
next
  case False
  with assms(2) show ?thesis
    by (cases st) (auto simp: exact_entry_def createSearchResult_def)
qed

lemma exact_fold_mono: "set (fst st) \<subseteq> set (fst (fold (exact_entry types) es st))"
proof (induction es arbitrary: st)
  case Nil
  then show ?case by simp
next
  case (Cons e es)
  from exact_entry_mono[of st types e] Cons.IH[of "exact_entry types e st"]
  show ?case by (simp; blast)
qed

lemma exact_fold_found:
  assumes "e \<in> set es" and "e_type e \<in> set types" and "seen_ok st"
  shows "\<exists>r\<in>set (fst (fold (exact_entry types) es st)).
           r_name r = e_name e \<and> r_type r = e_type e \<and> r_score r = 1"
  using assms(1,3)
proof (induction es arbitrary: st)
  case Nil
  then show ?case by simp
next
  case (Cons a es)
  have ok: "seen_ok (exact_entry types a st)" using Cons.prems(2) by (rule exact_entry_seen_ok)
  show ?case
  proof (cases "e = a")
    case True
    from exact_entry_found[OF Cons.prems(2) assms(2)] True
    obtain r where "r \<in> set (fst (exact_entry types a st))"
      "r_name r = e_name e \<and> r_type r = e_type e \<and> r_score r = 1" by auto
    with exact_fold_mono[of "exact_entry types a st" types es] show ?thesis by auto
  next
    case False
    with Cons.prems(1) have "e \<in> set es" by simp
    from Cons.IH[OF this ok] show ?thesis by simp
  qed
qed

lemma exact_fold_length:
  "length (fst (fold (exact_entry types) es st)) \<le> length (fst st) + length es"
proof (induction es arbitrary: st)
  case Nil
  then show ?case by simp
next
  case (Cons e es)
  have "length (fst (exact_entry types e st)) \<le> Suc (length (fst st))"
    by (cases st) (auto simp: exact_entry_def)
  with Cons.IH[of "exact_entry types e st"] show ?case by simp
qed

lemma exact_fold_scores:
  "(\<forall>r\<in>set (fst st). r_score r = 1)
     \<Longrightarrow> \<forall>r\<in>set (fst (fold (exact_entry types) es st)). r_score r = 1"
proof (induction es arbitrary: st)
  case Nil
  then show ?case by simp
next
  case (Cons e es)
  have "\<forall>r\<in>set (fst (exact_entry types e st)). r_score r = 1"
    using Cons.prems by (cases st) (auto simp: exact_entry_def createSearchResult_def)
  from Cons.IH[OF this] show ?case by simp
qed

section \<open>The later tiers only append results of score at most 1\<close>

lemma similarity_le_1: "calculateSimilarity a b \<le> 1"
proof -
  have "round_double (1 - round_double (of_nat d / of_nat m)) \<le> 1" for d m :: nat
  proof -
    have "0 \<le> round_double (of_nat d / of_nat m)" by (rule round_double_nonneg) simp
    then have "1 - round_double (of_nat d / of_nat m) \<le> 1" by simp
    then show ?thesis by (rule round_double_le_1)
  qed
  moreover have "round_double (8 / 10) \<le> 1" by (rule round_double_le_1) simp
  ultimately show ?thesis by (simp add: calculateSimilarity_def Let_def)
qed

definition extends :: "SearchResult list \<times> string list \<Rightarrow> SearchResult list \<times> string list \<Rightarrow> bool" where
  "extends st st' \<longleftrightarrow> (\<exists>more. fst st' = fst st @ more \<and> (\<forall>r\<in>set more. r_score r \<le> 1))"

lemma extends_refl: "extends st st"
  by (simp add: extends_def)

lemma extends_trans: "extends a b \<Longrightarrow> extends b c \<Longrightarrow> extends a c"
  unfolding extends_def
proof -
  assume "\<exists>more. fst b = fst a @ more \<and> (\<forall>r\<in>set more. r_score r \<le> 1)"
    and "\<exists>more. fst c = fst b @ more \<and> (\<forall>r\<in>set more. r_score r \<le> 1)"
  then obtain m1 m2 where "fst b = fst a @ m1" "\<forall>r\<in>set m1. r_score r \<le> 1"
    "fst c = fst b @ m2" "\<forall>r\<in>set m2. r_score r \<le> 1" by blast
  then have "fst c = fst a @ (m1 @ m2) \<and> (\<forall>r\<in>set (m1 @ m2). r_score r \<le> 1)" by auto
  then show "\<exists>more. fst c = fst a @ more \<and> (\<forall>r\<in>set more. r_score r \<le> 1)" by blast
qed

lemma scored_entry_extends:
  assumes "\<And>s. s \<le> 1 \<Longrightarrow> w s \<le> 1"
  shows "extends st (scored_entry types ms w n e st)"
proof -
  have "w (calculateSimilarity n (e_normalized e)) \<le> 1"
    by (rule assms) (rule similarity_le_1)
  then show ?thesis
    by (cases st) (auto simp: extends_def scored_entry_def Let_def createSearchResult_def)
qed

lemma scored_fold_extends:
  assumes "\<And>s. s \<le> 1 \<Longrightarrow> w s \<le> 1"
  shows "extends st (fold (scored_entry types ms w n) es st)"
proof (induction es arbitrary: st)
  case Nil
  then show ?case by (simp add: extends_refl)
next
  case (Cons e es)
  from scored_entry_extends[of w st types ms n e, OF assms]
    Cons.IH[of "scored_entry types ms w n e st"]
  show ?case by (simp add: extends_trans)
qed

lemma partial_words_extends:
  "extends st (fold (\<lambda>word st'. if 2 < length word
                       then fold (scored_entry types ms (\<lambda>similarity. similarity) n)
                              (index_get index word) st'
                       else st') ws st)"
proof (induction ws arbitrary: st)
  case Nil
  then show ?case by (simp add: extends_refl)
next
  case (Cons w ws)
  let ?st = "if 2 < length w
             then fold (scored_entry types ms (\<lambda>similarity. similarity) n) (index_get index w) st
             else st"
  have "extends st ?st" by (simp add: extends_refl scored_fold_extends)
  from extends_trans[OF this Cons.IH[of ?st]] show ?case by simp
qed

lemma partial_tier_extends: "extends st (partial_tier index types ms n st)"
  unfolding partial_tier_def by (rule partial_words_extends)

lemma fuzzy_tier_extends: "extends st (fuzzy_tier index types ms n st)"
  unfolding fuzzy_tier_def by (rule scored_fold_extends) (rule weighted_le_1)

lemma after_fuzzy_extends:
  "extends (after_exact index options n) (after_fuzzy index options n)"
proof -
  have p: "extends (after_exact index options n) (after_partial index options n)"
    by (simp add: after_partial_def Let_def extends_refl partial_tier_extends)
  have "extends (after_partial index options n) (after_fuzzy index options n)"
    by (simp add: after_fuzzy_def Let_def extends_refl fuzzy_tier_extends)
  with p show ?thesis by (rule extends_trans)
qed

section \<open>Sorting and truncating\<close>

lemma insort_key_head: "(\<forall>y\<in>set zs. f x \<le> f y) \<Longrightarrow> insort_key f x zs = x # zs"
  by (cases zs) simp_all

lemma sort_key_prefix:
  "(\<forall>x\<in>set xs. f x = k) \<Longrightarrow> (\<forall>y\<in>set ys. k \<le> f y)
     \<Longrightarrow> sort_key f (xs @ ys) = xs @ sort_key f ys"
proof (induction xs)
  case Nil
  then show ?case by simp
next
  case (Cons x xs)
  from Cons.prems(1) have fx: "f x = k" and rest: "\<forall>x\<in>set xs. f x = k" by simp_all
  from Cons.IH[OF rest Cons.prems(2)] have IH: "sort_key f (xs @ ys) = xs @ sort_key f ys" .
  have "f x \<le> f y" if "y \<in> set (xs @ sort_key f ys)" for y
  proof -
    from that consider "y \<in> set xs" | "y \<in> set ys" by auto
    then show ?thesis
    proof cases
      case 1
      with rest have "f y = k" by blast
      with fx show ?thesis by simp
    next
      case 2
      with Cons.prems(2) have "k \<le> f y" by blast
      with fx show ?thesis by simp
    qed
  qed
  then have "insort_key f x (xs @ sort_key f ys) = x # xs @ sort_key f ys"
    by (intro insort_key_head) blast
  moreover have "sort_key f ((x # xs) @ ys) = insort_key f x (sort_key f (xs @ ys))"
    by simp
  ultimately show ?case by (simp only: IH append_Cons)
qed

lemma sort_by_score_prefix:
  assumes "\<forall>x\<in>set xs. score x = 1" and "\<forall>y\<in>set ys. score y \<le> 1"
  shows "sort_by_score score (xs @ ys) = xs @ sort_by_score score ys"
  unfolding sort_by_score_def
  by (rule sort_key_prefix[where k="-1"]) (use assms in auto)

lemma slice0_prefix: "int (length xs) \<le> n \<Longrightarrow> set xs \<subseteq> set (slice0 (xs @ zs) n)"
  by (auto simp: slice0_def)

lemma slice0_all: "int (length xs) \<le> n \<Longrightarrow> slice0 xs n = xs"
  by (auto simp: slice0_def)

section \<open>The scan of autocomplete\<close>

definition names_ok :: "(string \<times> rat) list \<times> string list \<Rightarrow> bool" where
  "names_ok st \<longleftrightarrow> set (snd st) \<subseteq> fst ` set (fst st)"

lemma autocomplete_entry_ok: "names_ok st \<Longrightarrow> names_ok (autocomplete_entry p e st)"
  by (cases st) (auto simp: names_ok_def autocomplete_entry_def Let_def)

lemma autocomplete_entry_mono:
  "fst ` set (fst st) \<subseteq> fst ` set (fst (autocomplete_entry p e st))"
  by (cases st) (auto simp: autocomplete_entry_def Let_def)

lemma autocomplete_entry_found:
  "names_ok st \<Longrightarrow> round_double (3 / 10) < calculateSimilarity p (e_normalized e)
     \<Longrightarrow> e_name e \<in> fst ` set (fst (autocomplete_entry p e st))"
  by (cases st) (auto simp: names_ok_def autocomplete_entry_def Let_def)

lemma entries_fold_ok: "names_ok st \<Longrightarrow> names_ok (fold (autocomplete_entry p) es st)"
  by (induction es arbitrary: st) (simp_all add: autocomplete_entry_ok)

lemma entries_fold_mono:
  "fst ` set (fst st) \<subseteq> fst ` set (fst (fold (autocomplete_entry p) es st))"
proof (induction es arbitrary: st)
  case Nil
  then show ?case by simp
next
  case (Cons e es)
  from autocomplete_entry_mono[of st p e] Cons.IH[of "autocomplete_entry p e st"]
  show ?case by (simp; blast)
qed

lemma entries_fold_found:
  assumes "e \<in> set es" and "round_double (3 / 10) < calculateSimilarity p (e_normalized e)" and "names_ok st"
  shows "e_name e \<in> fst ` set (fst (fold (autocomplete_entry p) es st))"
  using assms(1,3)
proof (induction es arbitrary: st)
  case Nil
  then show ?case by simp
next
  case (Cons a es)
  show ?case
  proof (cases "e = a")
    case True
    from autocomplete_entry_found[OF Cons.prems(2) assms(2)] True
    have "e_name e \<in> fst ` set (fst (autocomplete_entry p a st))" by simp
    with entries_fold_mono[of "autocomplete_entry p a st" p es] show ?thesis by auto
  next
    case False
    with Cons.prems(1) have "e \<in> set es" by simp
    from Cons.IH[OF this autocomplete_entry_ok[OF Cons.prems(2)]] show ?thesis by simp
  qed
qed

definition scan_key ::
  "string \<Rightarrow> string \<times> SearchIndexEntry list \<Rightarrow> (string \<times> rat) list \<times> string list
     \<Rightarrow> (string \<times> rat) list \<times> string list" where
  "scan_key p = (\<lambda>(key, entries) st.
     if str_includes key p \<or> str_includes p key
     then fold (autocomplete_entry p) entries st else st)"

lemma scan_key_ok: "names_ok st \<Longrightarrow> names_ok (scan_key p ke st)"
  by (cases ke) (simp add: scan_key_def entries_fold_ok)

lemma scan_key_mono: "fst ` set (fst st) \<subseteq> fst ` set (fst (scan_key p ke st))"
  by (cases ke) (simp add: scan_key_def entries_fold_mono)

lemma scan_fold_mono: "fst ` set (fst st) \<subseteq> fst ` set (fst (fold (scan_key p) index st))"
proof (induction index arbitrary: st)
  case Nil
  then show ?case by simp
next
  case (Cons ke index)
  from scan_key_mono[of st p ke] Cons.IH[of "scan_key p ke st"]
  show ?case by (simp; blast)
qed

lemma scan_fold_found:
  assumes "(key, es) \<in> set index" and "str_includes key p \<or> str_includes p key"
    and "e \<in> set es" and "round_double (3 / 10) < calculateSimilarity p (e_normalized e)" and "names_ok st"
  shows "e_name e \<in> fst ` set (fst (fold (scan_key p) index st))"
  using assms(1,5)
proof (induction index arbitrary: st)
  case Nil
  then show ?case by simp
next
  case (Cons ke index)
  show ?case
  proof (cases "ke = (key, es)")
    case True
    have "e_name e \<in> fst ` set (fst (scan_key p ke st))"
      using True assms(2) entries_fold_found[OF assms(3,4) Cons.prems(2)]
      by (simp add: scan_key_def)
    with scan_fold_mono[of "scan_key p ke st" p index] show ?thesis by auto
  next
    case False
    with Cons.prems(1) have "(key, es) \<in> set index" by simp
    from Cons.IH[OF this scan_key_ok[OF Cons.prems(2)]] show ?thesis by simp
  qed
qed

lemma autocomplete_scan_fold: "autocomplete_scan p index = fold (scan_key p) index ([], [])"
  by (simp add: autocomplete_scan_def scan_key_def)

lemma index_get_in_index:
  "e \<in> set (index_get index key) \<Longrightarrow> (key, index_get index key) \<in> set index"
  by (auto simp: index_get_def split: option.splits dest: map_of_SomeD)

lemma starts_with_includes: "starts_with s t \<Longrightarrow> str_includes s t"
  by (cases s; cases t) simp_all

section \<open>The score of a prefix\<close>

definition trim_right :: "string \<Rightarrow> string" where
  "trim_right s = rev (dropWhile is_space (rev s))"

lemma trim_alt: "trim s = trim_right (dropWhile is_space s)"
  by (simp add: trim_def trim_right_def)

lemma trim_right_append:
  assumes "a \<noteq> []" and "\<not> is_space (last a)"
  shows "trim_right (a @ b) = a @ trim_right b"
proof (cases "\<forall>x\<in>set (rev b). is_space x")
  case True
  then have "dropWhile is_space (rev b @ rev a) = dropWhile is_space (rev a)"
    by (intro dropWhile_append2) blast
  moreover have "dropWhile is_space (rev a) = rev a"
    using assms by (simp add: dropWhile_eq_self_iff hd_rev)
  moreover from True have "dropWhile is_space (rev b) = []" by simp
  ultimately show ?thesis by (simp add: trim_right_def)
next
  case False
  then obtain x where "x \<in> set (rev b)" "\<not> is_space x" by blast
  then have "dropWhile is_space (rev b @ rev a) = dropWhile is_space (rev b) @ rev a"
    by (rule dropWhile_append1)
  then show ?thesis by (simp add: trim_right_def)
qed

lemma collapse_append:
  "a \<noteq> [] \<Longrightarrow> \<not> is_space (last a) \<Longrightarrow> collapse_ws (a @ b) = collapse_ws a @ collapse_ws b"
proof (induction a rule: collapse_ws.induct)
  case 1
  then show ?case by simp
next
  case (2 c cs)
  show ?case
  proof (cases "is_space c")
    case True
    with "2.prems" have cs: "cs \<noteq> []" by auto
    with "2.prems" have l: "\<not> is_space (last cs)" by simp
    from cs have "last cs \<in> set cs" by simp
    with l have d: "dropWhile is_space (cs @ b) = dropWhile is_space cs @ b"
      by (intro dropWhile_append1)
    from \<open>last cs \<in> set cs\<close> l
    have lu0: "last (dropWhile is_space cs) = last cs" and une: "dropWhile is_space cs \<noteq> []"
      by (auto simp: dropWhile_last dropWhile_eq_Nil_conv)
    from lu0 l have lu: "\<not> is_space (last (dropWhile is_space cs))" by simp
    from "2.IH"(1)[OF True une lu] True d show ?thesis by simp
  next
    case False
    show ?thesis
    proof (cases "cs = []")
      case True
      with False show ?thesis by simp
    next
      case cs: False
      with "2.prems" have "\<not> is_space (last cs)" by simp
      from "2.IH"(2)[OF False cs this] False show ?thesis by simp
    qed
  qed
qed

lemma starts_with_append: "starts_with (a @ b) a"
  by (induction a) simp_all

lemma starts_with_split: "starts_with k p \<Longrightarrow> \<exists>r. k = p @ r"
proof (induction k p rule: starts_with.induct)
  case (1 s)
  then show ?case by simp
next
  case (2 y ys)
  then show ?case by simp
next
  case (3 x xs y ys)
  then show ?case by auto
qed

lemma prefix_trim_collapse:
  assumes "starts_with k p"
  shows "starts_with (collapse_ws (trim k)) (collapse_ws (trim p))"
proof (cases "\<forall>x\<in>set p. is_space x")
  case True
  then have "trim p = []" by (simp add: trim_all_space list_all_iff)
  then show ?thesis by simp
next
  case False
  from assms obtain r where k: "k = p @ r" using starts_with_split by blast
  let ?p = "dropWhile is_space p"
  let ?core = "trim_right ?p"
  from False obtain x where x: "x \<in> set p" "\<not> is_space x" by blast
  then have dk: "dropWhile is_space k = ?p @ r" unfolding k by (rule dropWhile_append1)
  have core: "trim p = ?core" by (rule trim_alt)
  have e: "edges_ok (trim p)" by (rule trim_edges)
  from x have pne: "?p \<noteq> []" by (auto simp: dropWhile_eq_Nil_conv)
  have split: "?p = ?core @ rev (takeWhile is_space (rev ?p))"
  proof -
    have "rev (dropWhile is_space (rev ?p)) @ rev (takeWhile is_space (rev ?p))
        = rev (takeWhile is_space (rev ?p) @ dropWhile is_space (rev ?p))"
      by (simp only: rev_append)
    also have "\<dots> = rev (rev ?p)" by (simp only: takeWhile_dropWhile_id)
    also have "\<dots> = ?p" by (simp only: rev_rev_ident)
    finally show ?thesis unfolding trim_right_def by (rule sym)
  qed
  have cne: "?core \<noteq> []"
  proof
    assume "?core = []"
    then have "\<forall>y\<in>set ?p. is_space y" by (simp add: trim_right_def dropWhile_eq_Nil_conv)
    moreover from pne have "\<not> is_space (hd ?p)" by (rule hd_dropWhile)
    moreover from pne have "hd ?p \<in> set ?p" by simp
    ultimately show False by blast
  qed
  with e core have last: "\<not> is_space (last ?core)" by (simp add: edges_ok_def)
  have "trim k = trim_right (?core @ (rev (takeWhile is_space (rev ?p)) @ r))"
    unfolding trim_alt dk using split by (metis append.assoc)
  also have "\<dots> = ?core @ trim_right (rev (takeWhile is_space (rev ?p)) @ r)"
    using cne last by (rule trim_right_append)
  finally have "collapse_ws (trim k)
      = collapse_ws ?core @ collapse_ws (trim_right (rev (takeWhile is_space (rev ?p)) @ r))"
    using collapse_append[OF cne last] by simp
  then show ?thesis by (simp add: core starts_with_append)
qed

lemma normalize_twice:
  "normalize (normalize y) = collapse_ws (trim (normalize y))"
proof (cases "normalize y = []")
  case True
  then show ?thesis by (simp add: normalize_def trim_def)
next
  case False
  let ?s = "normalize y"
  have kept: "\<forall>c\<in>set ?s. word_space_hyphen c" by (rule normalize_kept)
  have fixed: "\<forall>c\<in>set ?s. toLowerCase_char c = c"
  proof
    fix c assume "c \<in> set ?s"
    then have "c \<in> set (collapse_ws (trim (toLowerCase y)))"
      by (auto simp: normalize_def split: if_splits)
    from set_collapse[OF this] consider "c = CHR '' ''" | "c \<in> set (trim (toLowerCase y))"
      by blast
    then show "toLowerCase_char c = c"
    proof cases
      case 1 then show ?thesis by (simp add: lower_space)
    next
      case 2
      with set_trim have "c \<in> set (toLowerCase y)" by blast
      then show ?thesis by (auto simp: toLowerCase_def lower_idem)
    qed
  qed
  have k2: "\<forall>c\<in>set (collapse_ws (trim ?s)). word_space_hyphen c"
    using kept set_trim set_collapse kept_space by blast
  show ?thesis
    using False k2 by (simp add: normalize_def[of ?s] lower_fix[OF fixed])
qed

lemma prefix_similarity:
  assumes "starts_with (normalize nm) (normalize s)"
  shows "round_double (8 / 10) \<le> calculateSimilarity (normalize s) (normalize nm)"
proof -
  from prefix_trim_collapse[OF assms]
  have "starts_with (normalize (normalize nm)) (normalize (normalize s))"
    by (simp only: normalize_twice)
  then have "str_includes (normalize (normalize nm)) (normalize (normalize s))"
    by (rule starts_with_includes)
  moreover have "round_double (8 / 10) \<le> 1" by (rule round_double_le_1) simp
  ultimately show ?thesis by (simp add: calculateSimilarity_def Let_def)
qed

section \<open>Examples outside ASCII and at the thresholds\<close>

text \<open>The no-break space is white space; the sharp s becomes \<open>SS\<close> in the script's code and
  is stripped by \<open>normalize\<close> in the processor's.\<close>

lemma normalize_no_break_space: "normalize [CHR ''a'', CHR 0xA0, CHR ''b''] = ''a b''"
  by code_simp

lemma toLowerCase_latin:
  "toLowerCase [CHR 0xC9, CHR 0xD7, CHR 0xDE, CHR ''Z''] = [CHR 0xE9, CHR 0xD7, CHR 0xFE, CHR ''z'']"
  by code_simp

lemma generateCode_sharp_s:
  "DataProcessor_generateCode ''TOWN''
     [CHR ''S'', CHR ''t'', CHR ''r'', CHR ''a'', CHR 0xDF, CHR ''e''] = ''SL-TOWN-STRASSE''"
  "generateCode ''TOWN''
     [CHR ''S'', CHR ''t'', CHR ''r'', CHR ''a'', CHR 0xDF, CHR ''e''] = ''SL-TOWN-STRAE''"
  by code_simp+

text \<open>Seven edits in ten characters score \<open>0.30000000000000004\<close>, above the threshold \<open>0.3\<close>
  of \<open>autocomplete\<close>; four edits in five score \<open>0.19999999999999996\<close>, below \<open>0.2\<close>.\<close>

lemma similarity_above_threshold:
  "round_double (3 / 10) < calculateSimilarity ''abcdefghij'' ''abcxyzuvwt''"
  by code_simp

lemma similarity_below_threshold:
  "calculateSimilarity ''abcde'' ''aqrst'' < round_double (2 / 10)"
  by code_simp

section \<open>C5: idempotence of normalize\<close>

text \<open>
  C5 states that \<open>normalize (normalize s) = normalize s\<close> for every string. \<open>normalize\<close>
  trims and collapses white space first and strips punctuation last, so a stripped
  character that stood between two spaces leaves a double space behind, which only a
  second call collapses: \<open>a ! b\<close> goes to \<open>a  b\<close> (two spaces) and that to \<open>a b\<close>; in the
  same way \<open>!a\<close> keeps a leading space. \<open>sanitize\<close>, of the same code base, strips first
  and collapses and trims afterwards, and gives \<open>a b\<close> for \<open>a ; b\<close> at once, where
  \<open>normalize\<close> gives \<open>a  b\<close>.
\<close>

theorem normalize_not_idempotent:
  "normalize ''a ! b'' = ''a  b''
   \<and> normalize (normalize ''a ! b'') = ''a b''
   \<and> normalize ''! a'' = '' a''
   \<and> normalize (normalize ''! a'') = ''a''
   \<and> normalize ''a ; b'' = ''a  b''
   \<and> fst (sanitize fresh_patterns ''a ; b'') = Inr ''a b''"
  by code_simp

text \<open>
  What the code does achieve: a second application only trims and collapses, so
  \<open>normalize s\<close> is a fixed point exactly when it has no white space at either end and no
  two spaces in a row, and the result of the second application is always a fixed point.
\<close>

lemma normalize_fixed_point_iff:
  "normalize (normalize s) = normalize s \<longleftrightarrow> collapse_ws (trim (normalize s)) = normalize s"
  by (simp add: normalize_twice)

lemma normalize_settles:
  "normalize (normalize (normalize s)) = normalize (normalize s)"
  using normalize_kept_input normalize_kept by blast

section \<open>C2: the sliding window of the rate limiter\<close>

lemma run_checks_in_window:
  assumes "rq c = Some pre"
    and "\<forall>t\<in>set ts. \<forall>p\<in>set (pre @ ts). t - p < w"
  shows "fst (run_checks c n w rq ts) = map (\<lambda>i. int (length pre) + int i < n) [0..<length ts]
       \<and> snd (run_checks c n w rq ts) c = Some (pre @ take (nat (n - int (length pre))) ts)"
  using assms
proof (induction ts arbitrary: rq pre)
  case Nil
  then show ?case by simp
next
  case (Cons t ts)
  have keep: "filter (\<lambda>p. t - p < w) pre = pre"
    using Cons.prems(2) by (auto intro!: filter_True)
  show ?case
  proof (cases "n \<le> int (length pre)")
    case True
    then have step: "checkRateLimit c rq n w t = (False, rq)"
      using Cons.prems(1) keep by (simp add: checkRateLimit_def)
    have win: "\<forall>t\<in>set ts. \<forall>p\<in>set (pre @ ts). t - p < w"
      using Cons.prems(2) by auto
    have "fst (run_checks c n w rq ts) = map (\<lambda>i. int (length pre) + int i < n) [0..<length ts]
       \<and> snd (run_checks c n w rq ts) c = Some (pre @ take (nat (n - int (length pre))) ts)"
      by (rule Cons.IH) (fact Cons.prems(1), fact win)
    with True step show ?thesis
      by (simp add: split_beta map_upt_Suc del: upt_Suc)
  next
    case False
    let ?rq = "rq(c \<mapsto> pre @ [t])"
    from False have step: "checkRateLimit c rq n w t = (True, ?rq)"
      using Cons.prems(1) keep by (simp add: checkRateLimit_def)
    have st: "?rq c = Some (pre @ [t])" by simp
    have win: "\<forall>t'\<in>set ts. \<forall>p\<in>set ((pre @ [t]) @ ts). t' - p < w"
      using Cons.prems(2) by auto
    from False have n: "nat (n - int (length pre)) = Suc (nat (n - int (length (pre @ [t]))))"
      by simp
    have "fst (run_checks c n w ?rq ts)
            = map (\<lambda>i. int (length (pre @ [t])) + int i < n) [0..<length ts]
       \<and> snd (run_checks c n w ?rq ts) c
            = Some ((pre @ [t]) @ take (nat (n - int (length (pre @ [t])))) ts)"
      by (rule Cons.IH) (fact st, fact win)
    with False step show ?thesis
      by (simp add: split_beta map_upt_Suc n add_ac del: upt_Suc)
  qed
qed

lemma first_check_when_expired:
  assumes "1 \<le> n"
    and "\<forall>t0\<in>set (case rq c of None \<Rightarrow> [] | Some old \<Rightarrow> old). w \<le> t - t0"
  shows "checkRateLimit c rq n w t = (True, rq(c \<mapsto> [t]))"
proof (cases "rq c")
  case None
  then show ?thesis by (simp add: checkRateLimit_def)
next
  case (Some old)
  with assms(2) have "filter (\<lambda>p. t - p < w) old = []"
    by (auto simp: filter_empty_conv)
  with Some assms(1) show ?thesis by (simp add: checkRateLimit_def)
qed

lemma sorted_le_last:
  assumes "sorted (ts :: int list)" and "x \<in> set ts"
  shows "x \<le> last ts"
proof -
  from assms(2) obtain i where i: "i < length ts" "ts ! i = x"
    by (auto simp: in_set_conv_nth)
  then have ne: "ts \<noteq> []" by auto
  have "ts ! i \<le> ts ! (length ts - 1)"
    using i(1) by (intro sorted_nth_mono[OF assms(1)]) auto
  with i(2) show ?thesis by (simp only: last_conv_nth[OF ne])
qed

lemma window_run:
  assumes n: "1 \<le> n"
    and len: "length rest = nat n"
    and srt: "sorted (t # rest)"
    and span: "last (t # rest) - t < w"
    and expired: "\<forall>t0\<in>set (case rq c of None \<Rightarrow> [] | Some old \<Rightarrow> old). w \<le> t - t0"
    and later: "w \<le> t' - last (t # rest)"
  shows "fst (run_checks c n w rq (t # rest)) = replicate (nat n) True @ [False]"
    and "fst (checkRateLimit c (snd (run_checks c n w rq (t # rest))) n w t') = True"
proof -
  let ?rq = "rq(c \<mapsto> [t])"
  have first: "checkRateLimit c rq n w t = (True, ?rq)"
    using n expired by (rule first_check_when_expired)
  have lo: "t \<le> x" if "x \<in> set (t # rest)" for x
    using srt that by auto
  have hi: "x \<le> last (t # rest)" if "x \<in> set (t # rest)" for x
    using srt that by (rule sorted_le_last)
  have win: "\<forall>x\<in>set rest. \<forall>p\<in>set ([t] @ rest). x - p < w"
  proof (intro ballI)
    fix x p assume "x \<in> set rest" "p \<in> set ([t] @ rest)"
    then have "x \<in> set (t # rest)" "p \<in> set (t # rest)" by auto
    then have "x \<le> last (t # rest)" "t \<le> p" using lo hi by blast+
    with span show "x - p < w" by linarith
  qed
  have st: "?rq c = Some [t]" by simp
  note rc = run_checks_in_window[where rq="?rq" and c=c and pre="[t]" and ts=rest
      and w=w and n=n, OF st win]
  from n have "nat n = Suc (nat n - 1)" "n = int (nat n - 1) + 1" by simp_all
  then obtain m where m: "nat n = Suc m" "n = int m + 1" by blast
  have flags: "map (\<lambda>i. int (length [t]) + int i < n) [0..<length rest]
          = replicate m True @ [False]"
    unfolding len m by (auto simp: list_eq_iff_nth_eq nth_append)
  from rc flags have res: "fst (run_checks c n w ?rq rest) = replicate m True @ [False]"
    by (simp only:)
  have "nat (n - int (length [t])) = m" using m by simp
  with rc have fin: "snd (run_checks c n w ?rq rest) c = Some ([t] @ take m rest)"
    by (simp only:)
  have unfold: "run_checks c n w rq (t # rest)
      = (True # fst (run_checks c n w ?rq rest), snd (run_checks c n w ?rq rest))"
    using first by (simp add: split_beta)
  have "fst (run_checks c n w rq (t # rest)) = True # replicate m True @ [False]"
    by (simp only: unfold fst_conv res)
  then show "fst (run_checks c n w rq (t # rest)) = replicate (nat n) True @ [False]"
    by (simp add: m(1))
  have stored: "snd (run_checks c n w rq (t # rest)) c = Some ([t] @ take m rest)"
    by (simp only: unfold snd_conv fin)
  have "w \<le> t' - p" if "p \<in> set ([t] @ take m rest)" for p
  proof -
    from that have "p \<in> set (t # rest)" by (auto dest: in_set_takeD)
    then have "p \<le> last (t # rest)" by (rule hi)
    with later show ?thesis by linarith
  qed
  then have "filter (\<lambda>p. t' - p < w) ([t] @ take m rest) = []"
    unfolding filter_empty_conv by (meson not_le)
  with stored n show "fst (checkRateLimit c (snd (run_checks c n w rq (t # rest))) n w t') = True"
    by (simp add: checkRateLimit_def)
qed

text \<open>
  C2 as stated includes \<open>N = 0\<close> and a fresh client. There the first check is allowed
  (the branch for an unknown client returns before the count is compared), and once the
  client has a window every later check is denied, also after the window has elapsed,
  because \<open>0 \<ge> 0\<close>.
\<close>

theorem rate_limit_zero_counterexample:
  "fst (run_checks ''client'' 0 60000 Map.empty [1000, 70000]) = [True, False]"
  by (simp add: checkRateLimit_def)

text \<open>
  C2, as amended, for \<open>N \<ge> 1\<close>: a client that is fresh, or whose recorded timestamps have
  all expired, makes \<open>N + 1\<close> checks at non-decreasing times within one window. Exactly the
  first \<open>N\<close> are allowed and the last is denied, and a check made \<open>windowMs\<close> or more after
  the last of them is allowed again. For \<open>N \<le> 0\<close> a client that has a window is denied
  whenever it asks.
\<close>

theorem rate_limit_window:
  "(1 \<le> n \<and> length ts = nat n + 1 \<and> sorted ts \<and> last ts - hd ts < w
      \<and> (\<forall>t0\<in>set (case rq c of None \<Rightarrow> [] | Some old \<Rightarrow> old). w \<le> hd ts - t0)
      \<and> w \<le> t' - last ts
    \<longrightarrow> fst (run_checks c n w rq ts) = replicate (nat n) True @ [False]
        \<and> fst (checkRateLimit c (snd (run_checks c n w rq ts)) n w t') = True)
   \<and> (n \<le> 0 \<and> rq c \<noteq> None \<longrightarrow> fst (checkRateLimit c rq n w t') = False)"
proof (intro conjI impI)
  assume "n \<le> 0 \<and> rq c \<noteq> None"
  then obtain old where "rq c = Some old" "n \<le> 0" by auto
  then show "fst (checkRateLimit c rq n w t') = False"
    by (simp add: checkRateLimit_def Let_def)
next
  assume a: "1 \<le> n \<and> length ts = nat n + 1 \<and> sorted ts \<and> last ts - hd ts < w
      \<and> (\<forall>t0\<in>set (case rq c of None \<Rightarrow> [] | Some old \<Rightarrow> old). w \<le> hd ts - t0)
      \<and> w \<le> t' - last ts"
  then obtain t rest where ts: "ts = t # rest" by (cases ts) simp_all
  from a have n: "1 \<le> n" by blast
  from a ts have len: "length rest = nat n" by simp
  from a ts have srt: "sorted (t # rest)" by blast
  from a ts have span: "last (t # rest) - t < w" by (metis list.sel(1))
  from a ts have expired: "\<forall>t0\<in>set (case rq c of None \<Rightarrow> [] | Some old \<Rightarrow> old). w \<le> t - t0"
    by (metis list.sel(1))
  from a ts have later: "w \<le> t' - last (t # rest)" by blast
  from window_run[where rq=rq and c=c, OF n len srt span expired later]
  show "fst (run_checks c n w rq ts) = replicate (nat n) True @ [False]"
    and "fst (checkRateLimit c (snd (run_checks c n w rq ts)) n w t') = True"
    unfolding ts by blast+
qed

theorem rate_limit_window_witness:
  "fst (run_checks ''client'' 2 60000 Map.empty [1000, 1500, 2000]) = [True, True, False]
   \<and> fst (checkRateLimit ''client''
        (snd (run_checks ''client'' 2 60000 Map.empty [1000, 1500, 2000])) 2 60000 62000) = True
   \<and> fst (checkRateLimit ''client'' [''client'' \<mapsto> [1000]] 0 60000 62000) = False"
  using rate_limit_window [of 2 "[1000, 1500, 2000]" 60000 Map.empty "''client''" 62000]
    rate_limit_window [of 0 "[]" 60000 "[''client'' \<mapsto> [1000]]" "''client''" 62000]
  by (simp add: numeral_2_eq_2)

section \<open>C1: the bound of the cache\<close>

text \<open>A service whose clock stands still: every call of \<open>Date.now()\<close> returns 5000.\<close>

definition standing_clock_service :: LocationService where
  "standing_clock_service =
     \<lparr>rawData = [], cache = [], cacheAccessTimes = [], locationIndex = [],
      initialized = True, validator = fresh_patterns,
      dateNow = (\<lambda>k. 5000), dateNowCalls = 0\<rparr>"

text \<open>The keys \<open>k\<close>, \<open>kk\<close>, \<open>kkk\<close>, ...: \<open>n\<close> distinct cache keys.\<close>

definition some_keys :: "nat \<Rightarrow> string list" where
  "some_keys n = map (\<lambda>i. replicate (Suc i) CHR ''k'') [0..<n]"

definition standing :: "int \<Rightarrow> LocationService \<Rightarrow> bool" where
  "standing t s \<longleftrightarrow> (\<forall>k. dateNow s k = t) \<and> (\<forall>p\<in>set (cacheAccessTimes s). snd p = t)"

lemma oldest_scan_none_older:
  "\<forall>p\<in>set ts. \<not> snd p < t \<Longrightarrow> oldest_scan ts (k, t) = (k, t)"
  by (induction ts) (auto simp: oldest_scan_def)

lemma set_update_subset: "set (AList.update k v al) \<subseteq> insert (k, v) (set al)"
  by (induction al) auto

lemma manageCacheSize_standing:
  assumes "standing t s"
  shows "cache (manageCacheSize s) = cache s"
    and "cacheAccessTimes (manageCacheSize s) = cacheAccessTimes s"
    and "dateNow (manageCacheSize s) = dateNow s"
proof -
  have scan: "oldest_scan (cacheAccessTimes s) ('''', t) = ('''', t)"
    using assms by (intro oldest_scan_none_older) (auto simp: standing_def)
  have now: "dateNow s (dateNowCalls s) = t" using assms by (simp add: standing_def)
  show "cache (manageCacheSize s) = cache s"
    and "cacheAccessTimes (manageCacheSize s) = cacheAccessTimes s"
    and "dateNow (manageCacheSize s) = dateNow s"
    by (simp_all add: manageCacheSize_def Date_now_def now scan)
qed

lemma setToCache_standing:
  assumes "standing t s"
  shows "cache (setToCache k v s) = AList.update k v (cache s)"
    and "standing t (setToCache k v s)"
proof -
  note m = manageCacheSize_standing[OF assms]
  show "cache (setToCache k v s) = AList.update k v (cache s)"
    by (simp add: setToCache_def Date_now_def Let_def m)
  have "cacheAccessTimes (setToCache k v s) = AList.update k t (cacheAccessTimes s)"
    using assms by (simp add: setToCache_def Date_now_def Let_def m standing_def)
  moreover have "dateNow (setToCache k v s) = dateNow s"
    by (simp add: setToCache_def Date_now_def Let_def m)
  moreover have "set (AList.update k t (cacheAccessTimes s)) \<subseteq> insert (k, t) (set (cacheAccessTimes s))"
    by (rule set_update_subset)
  ultimately show "standing t (setToCache k v s)"
    using assms unfolding standing_def by fastforce
qed

lemma length_update_new:
  "k \<notin> fst ` set al \<Longrightarrow> length (AList.update k v al) = Suc (length al)"
  by (induction al) auto

lemma fill_standing:
  assumes "standing t s" and "distinct ks" and "set ks \<inter> fst ` set (cache s) = {}"
  shows "length (cache (fold (\<lambda>k. setToCache k v) ks s)) = length (cache s) + length ks"
  using assms
proof (induction ks arbitrary: s)
  case Nil
  then show ?case by simp
next
  case (Cons k ks)
  let ?s = "setToCache k v s"
  have c: "cache ?s = AList.update k v (cache s)" and st: "standing t ?s"
    using setToCache_standing[OF Cons.prems(1)] by auto
  have new: "k \<notin> fst ` set (cache s)" using Cons.prems(3) by auto
  have "fst ` set (cache ?s) = insert k (fst ` set (cache s))"
    by (simp add: c dom_update)
  with Cons.prems have disj: "set ks \<inter> fst ` set (cache ?s) = {}" by auto
  from Cons.prems have d: "distinct ks" by simp
  from Cons.IH[OF st d disj] show ?case
    by (simp add: c length_update_new[OF new])
qed

lemma distinct_some_keys: "distinct (some_keys n)"
proof -
  have "inj_on (\<lambda>i. replicate (Suc i) CHR ''k'') (set [0..<n])"
    by (rule inj_onI) (metis length_replicate nat.inject)
  then show ?thesis by (simp add: some_keys_def distinct_map)
qed

subsection \<open>Eviction when the clock has advanced\<close>

lemma oldest_scan_Cons:
  "oldest_scan (p # ts) (k0, t0) = oldest_scan ts (if snd p < t0 then p else (k0, t0))"
  by (cases p) (simp add: oldest_scan_def)

lemma oldest_scan_min:
  "oldest_scan ts (k0, t0) = (k, t) \<Longrightarrow>
     ((k, t) = (k0, t0) \<and> (\<forall>p\<in>set ts. t0 \<le> snd p))
     \<or> ((k, t) \<in> set ts \<and> t < t0 \<and> (\<forall>p\<in>set ts. t \<le> snd p))"
proof (induction ts arbitrary: k0 t0)
  case Nil
  then show ?case by (simp add: oldest_scan_def)
next
  case (Cons p ts)
  obtain pk pt where p: "p = (pk, pt)" by (cases p)
  show ?case
  proof (cases "pt < t0")
    case True
    with Cons.prems p have "oldest_scan ts (pk, pt) = (k, t)" by (simp add: oldest_scan_Cons)
    from Cons.IH[OF this] True p show ?thesis by auto
  next
    case False
    with Cons.prems p have "oldest_scan ts (k0, t0) = (k, t)" by (simp add: oldest_scan_Cons)
    from Cons.IH[OF this] False p show ?thesis by auto
  qed
qed

lemma length_delete:
  "distinct (map fst al) \<Longrightarrow> k \<in> fst ` set al \<Longrightarrow> Suc (length (AList.delete k al)) = length al"
proof (induction al)
  case Nil
  then show ?case by simp
next
  case (Cons a al)
  show ?case
  proof (cases "fst a = k")
    case True
    with Cons.prems(1) have "k \<notin> fst ` set al" by auto
    then have "AList.delete k al = al" by (rule delete_id)
    with True show ?thesis by simp
  next
    case False
    with Cons.prems have "k \<in> fst ` set al" "distinct (map fst al)" by auto
    from Cons.IH[OF this(2,1)] False show ?thesis by simp
  qed
qed

text \<open>
  When the cache is full, every stored access time is older than the current reading of
  the clock, and no key is empty, inserting a new key evicts an entry whose access time is
  minimal and leaves the size as it was.
\<close>

lemma setToCache_evicts_oldest:
  assumes full: "maxCacheSize \<le> length (cache s)"
    and same: "fst ` set (cacheAccessTimes s) = fst ` set (cache s)"
    and dist: "distinct (map fst (cache s))"
    and older: "\<forall>p\<in>set (cacheAccessTimes s). snd p < dateNow s (dateNowCalls s)"
    and named: "'''' \<notin> fst ` set (cache s)"
    and new: "key \<notin> fst ` set (cache s)"
  shows "length (cache (setToCache key v s)) = length (cache s)
     \<and> key \<in> fst ` set (cache (setToCache key v s))
     \<and> (\<exists>p\<in>set (cacheAccessTimes s).
           (\<forall>q\<in>set (cacheAccessTimes s). snd p \<le> snd q)
           \<and> fst p \<notin> fst ` set (cache (setToCache key v s)))"
proof -
  let ?now = "dateNow s (dateNowCalls s)"
  obtain k t where scan: "oldest_scan (cacheAccessTimes s) ('''', ?now) = (k, t)"
    by (cases "oldest_scan (cacheAccessTimes s) ('''', ?now)")
  from full have "cache s \<noteq> []" by (auto simp: maxCacheSize_def)
  with same have ne: "cacheAccessTimes s \<noteq> []" by auto
  then obtain q where q: "q \<in> set (cacheAccessTimes s)" by (cases "cacheAccessTimes s") auto
  with older have "\<not> ?now \<le> snd q" by auto
  with oldest_scan_min[OF scan] q
  have kt: "(k, t) \<in> set (cacheAccessTimes s)" and least: "\<forall>p\<in>set (cacheAccessTimes s). t \<le> snd p"
    by blast+
  from kt same have kin: "k \<in> fst ` set (cache s)" by force
  with named have kne: "k \<noteq> ''''" by blast
  let ?c = "AList.delete k (cache s)"
  have m: "cache (manageCacheSize s) = ?c"
    using full scan kne by (simp add: manageCacheSize_def Date_now_def)
  have c: "cache (setToCache key v s) = AList.update key v ?c"
    by (simp add: setToCache_def Date_now_def Let_def m)
  from new have knew: "key \<notin> fst ` set ?c" using dom_delete_subset[of k "cache s"] by blast
  have "length (AList.update key v ?c) = Suc (length ?c)" using knew by (rule length_update_new)
  with length_delete[OF dist kin] have len: "length (cache (setToCache key v s)) = length (cache s)"
    by (simp add: c)
  have keyin: "key \<in> fst ` set (cache (setToCache key v s))" by (simp add: c dom_update)
  from kin new have "k \<noteq> key" by auto
  then have gone: "k \<notin> fst ` set (cache (setToCache key v s))"
    using delete_notin_dom[of k "cache s"] by (simp add: c dom_update)
  from kt least gone have "\<exists>p\<in>set (cacheAccessTimes s).
           (\<forall>q\<in>set (cacheAccessTimes s). snd p \<le> snd q)
           \<and> fst p \<notin> fst ` set (cache (setToCache key v s))"
    by force
  with len keyin show ?thesis by blast
qed

text \<open>
  C1 says that the cache never holds more than \<open>maxCacheSize = 1000\<close> entries. The scan in
  \<open>manageCacheSize\<close> starts from \<open>oldestTime = Date.now()\<close> and looks for a strictly smaller
  access time, so an entry accessed in the current millisecond is never a candidate. When
  all entries carry the current reading nothing is evicted: after 1001 inserts of distinct
  keys under one reading of the clock the cache holds 1001 entries.
\<close>

theorem cache_exceeds_bound_when_clock_stands:
  "length (cache (fold (\<lambda>k. setToCache k CNull) (some_keys 1001) standing_clock_service)) = 1001"
proof -
  have "standing 5000 standing_clock_service"
    by (simp add: standing_def standing_clock_service_def)
  from fill_standing[OF this distinct_some_keys, of 1001 CNull] show ?thesis
    by (simp add: standing_clock_service_def some_keys_def)
qed

section \<open>C9: the tiers of search\<close>

lemma set_sort_by_score: "set (sort_by_score f xs) = set xs"
  by (simp add: sort_by_score_def)

lemma set_slice0: "set (slice0 xs n) \<subseteq> set xs"
  by (auto simp: slice0_def dest: in_set_takeD)

lemma exact_fold_results:
  "set (fst (fold (exact_entry types) es st))
     \<subseteq> set (fst st) \<union> (\<lambda>e. createSearchResult e 1) ` set es"
proof (induction es arbitrary: st)
  case Nil
  then show ?case by simp
next
  case (Cons e es)
  have "set (fst (exact_entry types e st)) \<subseteq> insert (createSearchResult e 1) (set (fst st))"
    by (cases st) (auto simp: exact_entry_def)
  with Cons.IH[of "exact_entry types e st"] show ?case by auto
qed

lemma exact_tier_results:
  "set (fst (exact_tier index types normalized))
     \<subseteq> (\<lambda>e. createSearchResult e 1) ` set (index_get index normalized)"
  using exact_fold_results[of types "index_get index normalized" "([], [])"]
  by (simp add: exact_tier_def)

text \<open>
  C9: when the exact tier has collected at least \<open>limit\<close> results, the partial tier and the
  phonetic tier are both skipped, so the answer is the sorted and truncated list of exact
  matches, whatever \<open>minScore\<close> and \<open>fuzzy\<close> are; and the phonetic tier leaves the results
  as they are unless \<open>fuzzy\<close> is set and fewer than \<open>limit / 2\<close> results have been collected.
\<close>

theorem search_tier_gating:
  "(limit_of options \<le> int (length (fst (after_exact index options (normalize q))))
      \<longrightarrow> after_partial index options (normalize q) = after_exact index options (normalize q)
        \<and> after_fuzzy index options (normalize q) = after_exact index options (normalize q)
        \<and> search_results index options q
            = slice0 (sort_by_score r_score
                (fst (exact_tier index (types_of options) (normalize q)))) (limit_of options)
        \<and> search_results index (options\<lparr>opt_minScore := m, opt_fuzzy := f\<rparr>) q
            = search_results index options q
        \<and> set (search_results index options q)
            \<subseteq> (\<lambda>e. createSearchResult e 1) ` set (index_get index (normalize q)))
   \<and> (\<not> (fuzzy_of options
          \<and> 2 * int (length (fst (after_partial index options (normalize q)))) < limit_of options)
      \<longrightarrow> after_fuzzy index options (normalize q) = after_partial index options (normalize q))"
proof (intro conjI impI)
  assume full: "limit_of options \<le> int (length (fst (after_exact index options (normalize q))))"
  show p: "after_partial index options (normalize q) = after_exact index options (normalize q)"
    using full by (simp add: after_partial_def)
  have "\<not> 2 * int (length (fst (after_exact index options (normalize q)))) < limit_of options"
    using full by linarith
  then show fz: "after_fuzzy index options (normalize q) = after_exact index options (normalize q)"
    by (simp add: after_fuzzy_def p)
  then show sr: "search_results index options q
      = slice0 (sort_by_score r_score
          (fst (exact_tier index (types_of options) (normalize q)))) (limit_of options)"
    by (simp add: search_results_def after_exact_def)
  let ?o = "options\<lparr>opt_minScore := m, opt_fuzzy := f\<rparr>"
  have same: "limit_of ?o = limit_of options" "types_of ?o = types_of options"
    by (simp_all add: limit_of_def types_of_def)
  then have ex: "after_exact index ?o (normalize q) = after_exact index options (normalize q)"
    by (simp add: after_exact_def)
  have p': "after_partial index ?o (normalize q) = after_exact index options (normalize q)"
    using full by (simp add: after_partial_def ex same)
  have "\<not> 2 * int (length (fst (after_exact index options (normalize q)))) < limit_of options"
    using full by linarith
  then have "after_fuzzy index ?o (normalize q) = after_exact index options (normalize q)"
    by (simp add: after_fuzzy_def p' same)
  then show "search_results index ?o q = search_results index options q"
    by (simp add: search_results_def fz same)
  show "set (search_results index options q)
      \<subseteq> (\<lambda>e. createSearchResult e 1) ` set (index_get index (normalize q))"
    unfolding sr using set_slice0 set_sort_by_score exact_tier_results by fast
next
  assume "\<not> (fuzzy_of options
      \<and> 2 * int (length (fst (after_partial index options (normalize q)))) < limit_of options)"
  then show "after_fuzzy index options (normalize q) = after_partial index options (normalize q)"
    by (auto simp: after_fuzzy_def Let_def)
qed

definition limit_one :: SearchOptions where
  "limit_one = \<lparr>opt_limit = Some 1, opt_minScore = None, opt_types = None, opt_fuzzy = None\<rparr>"

theorem search_tier_gating_witness:
  "limit_of limit_one
     \<le> int (length (fst (after_exact (buildSearchIndex [magbass] []) limit_one (normalize ''tonkolili''))))
   \<and> map r_name (search_results (buildSearchIndex [magbass] []) limit_one ''tonkolili'') = [''TONKOLILI'']
   \<and> search_results (buildSearchIndex [magbass] [])
        (limit_one\<lparr>opt_minScore := Some 2, opt_fuzzy := Some False\<rparr>) ''tonkolili''
      = search_results (buildSearchIndex [magbass] []) limit_one ''tonkolili''
   \<and> after_fuzzy (buildSearchIndex [magbass] []) (limit_one\<lparr>opt_fuzzy := Some False\<rparr>)
        (normalize ''tonkolil'')
      = after_partial (buildSearchIndex [magbass] []) (limit_one\<lparr>opt_fuzzy := Some False\<rparr>)
        (normalize ''tonkolil'')"
proof -
  have h: "limit_of limit_one
     \<le> int (length (fst (after_exact (buildSearchIndex [magbass] []) limit_one (normalize ''tonkolili''))))"
    by code_simp
  have n: "map r_name (search_results (buildSearchIndex [magbass] []) limit_one ''tonkolili'') = [''TONKOLILI'']"
    by code_simp
  have g: "\<not> (fuzzy_of (limit_one\<lparr>opt_fuzzy := Some False\<rparr>)
      \<and> 2 * int (length (fst (after_partial (buildSearchIndex [magbass] [])
            (limit_one\<lparr>opt_fuzzy := Some False\<rparr>) (normalize ''tonkolil'')))) < limit_of (limit_one\<lparr>opt_fuzzy := Some False\<rparr>))"
    by (simp add: fuzzy_of_def)
  from search_tier_gating[where options=limit_one and index="buildSearchIndex [magbass] []"
        and q="''tonkolili''" and m="Some 2" and f="Some False"]
    search_tier_gating[where options="limit_one\<lparr>opt_fuzzy := Some False\<rparr>"
        and index="buildSearchIndex [magbass] []" and q="''tonkolil''"]
    h n g
  show ?thesis by blast
qed

section \<open>C6: autocomplete and short queries\<close>

text \<open>
  C6 says that \<open>autocomplete\<close> fails whenever the sanitized query has fewer than two
  characters. The code tests \<open>!sanitized || sanitized.length < 2\<close> and returns \<open>[]\<close>: the
  query \<open>a;\<close> is sanitized to \<open>a\<close> and answered with the empty list, and so is the empty
  query.
\<close>

theorem autocomplete_short_sanitized_counterexample:
  "fst (sanitizeSearchQuery fresh_patterns ''a;'') = Inr ''a''
   \<and> fst (autocomplete (new_service []) ''a;'' ''client'' 10 0) = Inr []
   \<and> fst (autocomplete (new_service []) [] ''client'' 10 0) = Inr []"
  by code_simp

text \<open>
  C6, as amended: when the admission check passes and the sanitized query has fewer than
  two characters, \<open>autocomplete\<close> returns the empty list and no error. The error about two
  characters comes from \<open>sanitizeSearchQuery\<close> and is raised for a raw query of exactly one
  character.
\<close>

theorem autocomplete_short_query:
  "fst (checkRateLimit c (rateLimit svc) 50 60000 now) \<longrightarrow>
     (fst (sanitizeSearchQuery (patterns svc) q) = Inr s \<and> length s < 2
        \<longrightarrow> fst (autocomplete svc q c limit now) = Inr [])
     \<and> (length q = 1 \<longrightarrow> fst (autocomplete svc q c limit now) = Inl QueryTooShort)"
proof (intro impI conjI)
  assume adm: "fst (checkRateLimit c (rateLimit svc) 50 60000 now)"
  {
    assume "fst (sanitizeSearchQuery (patterns svc) q) = Inr s \<and> length s < 2"
    then show "fst (autocomplete svc q c limit now) = Inr []"
      by (simp add: autocomplete_admitted[OF adm])
  }
  {
    assume "length q = 1"
    then have "fst (sanitizeSearchQuery (patterns svc) q) = Inl QueryTooShort"
      by (auto simp: sanitizeSearchQuery_def MAX_SEARCH_LENGTH_def)
    then show "fst (autocomplete svc q c limit now) = Inl QueryTooShort"
      by (simp add: autocomplete_admitted[OF adm])
  }
qed

theorem autocomplete_short_query_witness:
  "fst (checkRateLimit ''client'' (rateLimit (new_service [magbass])) 50 60000 0)
   \<and> fst (sanitizeSearchQuery (patterns (new_service [magbass])) ''<b>m'') = Inr ''m''
   \<and> fst (autocomplete (new_service [magbass]) ''<b>m'' ''client'' 10 0) = Inr []
   \<and> fst (autocomplete (new_service [magbass]) ''m'' ''client'' 10 0) = Inl QueryTooShort"
proof -
  have a: "fst (checkRateLimit ''client'' (rateLimit (new_service [magbass])) 50 60000 0)"
    by (simp add: new_service_def checkRateLimit_def)
  have s: "fst (sanitizeSearchQuery (patterns (new_service [magbass])) ''<b>m'') = Inr ''m''"
    by code_simp
  from autocomplete_short_query[of "''client''" "new_service [magbass]" 0 "''<b>m''" "''m''" 10]
    autocomplete_short_query[of "''client''" "new_service [magbass]" 0 "''m''" "''m''" 10]
    a s
  show ?thesis by simp
qed

section \<open>C7: search and blank queries\<close>

text \<open>
  C7 says that \<open>search\<close> answers every empty or white-space-only query with the empty
  result and never with an error. A query of one space is rejected by the length check of
  \<open>sanitizeSearchQuery\<close>.
\<close>

theorem search_one_space_counterexample:
  "fst (search (new_service []) '' '' no_options ''client'' 0) = Inl QueryTooShort"
  by code_simp

text \<open>
  C7, as amended: for a query that is empty or holds white space only, \<open>search\<close> returns the
  empty result when the admission check passes and the query is empty or has between 2 and
  100 characters; it fails with the rate-limit error when the check denies the call, with
  the minimum-length error for a single white-space character and with the maximum-length
  error for more than 100 characters. This holds in every state of the validator's
  patterns.
\<close>

theorem search_blank_query:
  "list_all is_space q \<longrightarrow>
     fst (search svc q options c now) =
       (if \<not> fst (checkRateLimit c (rateLimit svc) 30 60000 now) then Inl RateLimitExceeded
        else if length q = 1 then Inl QueryTooShort
        else if 100 < length q then Inl QueryTooLong
        else Inr [])"
proof
  assume blank: "list_all is_space q"
  show "fst (search svc q options c now) =
       (if \<not> fst (checkRateLimit c (rateLimit svc) 30 60000 now) then Inl RateLimitExceeded
        else if length q = 1 then Inl QueryTooShort
        else if 100 < length q then Inl QueryTooLong
        else Inr [])"
  proof (cases "fst (checkRateLimit c (rateLimit svc) 30 60000 now)")
    case False
    then show ?thesis by (simp add: search_denied)
  next
    case True
    have "fst (sanitizeSearchQuery (patterns svc) q) =
       (if length q = 1 then Inl QueryTooShort
        else if 100 < length q then Inl QueryTooLong
        else Inr [])"
    proof (cases "q = [] \<or> length q = 1 \<or> 100 < length q")
      case True
      then show ?thesis
        by (auto simp: sanitizeSearchQuery_def MAX_SEARCH_LENGTH_def)
    next
      case False
      then have len: "length q \<le> MAX_INPUT_LENGTH" by (simp add: MAX_INPUT_LENGTH_def)
      from False have "length q \<noteq> 0" "length q \<noteq> 1" by simp_all
      then have "2 \<le> length q" by linarith
      with sanitize_blank[OF blank len] False show ?thesis
        by (simp add: sanitizeSearchQuery_def MAX_SEARCH_LENGTH_def)
    qed
    then show ?thesis using True by (simp add: search_admitted[OF True])
  qed
qed

theorem search_blank_query_witness:
  "list_all is_space [CHR '' '', CHR 0x09, CHR '' '']
   \<and> fst (search (new_service [magbass]) [CHR '' '', CHR 0x09, CHR '' ''] no_options ''client'' 0)
       = Inr []"
proof -
  have b: "list_all is_space [CHR '' '', CHR 0x09, CHR '' '']" by (simp add: is_space_def)
  have a: "fst (checkRateLimit ''client'' (rateLimit (new_service [magbass])) 30 60000 0)"
    by (simp add: new_service_def checkRateLimit_def)
  from search_blank_query[of "[CHR '' '', CHR 0x09, CHR '' '']" "new_service [magbass]"
      no_options "''client''" 0] a b
  show ?thesis by simp
qed

section \<open>C3: the windows of autocomplete and search\<close>

text \<open>A service in which the client has made 29 admitted calls at time 0.\<close>

definition busy_service :: SearchService where
  "busy_service = (new_service [])\<lparr>rateLimit := [''client'' \<mapsto> replicate 29 0]\<rparr>"

text \<open>
  C3 says that the limiters of \<open>autocomplete\<close> and \<open>search\<close> do not share state. Both pass
  the one map \<open>this.rateLimit\<close> to \<open>checkRateLimit\<close>. With 29 calls recorded, a search is
  admitted; after one more autocomplete, which is recorded in the same window, the same
  search is denied.
\<close>

theorem shared_window_counterexample:
  "fst (search busy_service ''te'' no_options ''client'' 2) = Inr []
   \<and> fst (search (snd (autocomplete busy_service ''te'' ''client'' 10 1))
        ''te'' no_options ''client'' 2) = Inl RateLimitExceeded"
  by code_simp

text \<open>
  C3, as amended: \<open>autocomplete\<close> and \<open>search\<close> share one window per client. With \<open>recent\<close>
  the timestamps of the client's window that are younger than 60 seconds, whichever
  operation recorded them, and none for a client that has no window yet, \<open>autocomplete\<close> is
  admitted exactly when there are fewer than 50 and \<open>search\<close> exactly when there are fewer
  than 30; an admitted call of either kind replaces the window by \<open>recent\<close> followed by the
  new timestamp, a denied call leaves it as it is, and the windows of other clients are
  never touched.
\<close>

theorem shared_rate_window:
  "(let recent = filter (\<lambda>t. now - t < 60000)
                   (case rateLimit svc c of None \<Rightarrow> [] | Some timestamps \<Rightarrow> timestamps) in
        (fst (autocomplete svc q c limit now) \<noteq> Inl RateLimitExceeded \<longleftrightarrow> length recent < 50)
      \<and> (fst (search svc q options c now) \<noteq> Inl RateLimitExceeded \<longleftrightarrow> length recent < 30)
      \<and> rateLimit (snd (autocomplete svc q c limit now)) c
          = (if length recent < 50 then Some (recent @ [now]) else rateLimit svc c)
      \<and> rateLimit (snd (search svc q options c now)) c
          = (if length recent < 30 then Some (recent @ [now]) else rateLimit svc c)
      \<and> (c' \<noteq> c \<longrightarrow>
            rateLimit (snd (autocomplete svc q c limit now)) c' = rateLimit svc c'
          \<and> rateLimit (snd (search svc q options c now)) c' = rateLimit svc c'))"
  by (cases "rateLimit svc c")
    (auto simp: autocomplete_denied_iff search_denied_iff autocomplete_rateLimit
      search_rateLimit checkRateLimit_def Let_def)

theorem shared_rate_window_witness:
  "rateLimit (new_service []) ''client'' = None
   \<and> fst (search (new_service []) ''te'' no_options ''client'' 5) \<noteq> Inl RateLimitExceeded
   \<and> rateLimit (snd (search (new_service []) ''te'' no_options ''client'' 5)) ''client''
       = Some [5]
   \<and> fst (autocomplete (new_service []) ''te'' ''client'' 10 5) \<noteq> Inl RateLimitExceeded
   \<and> rateLimit (snd (autocomplete (new_service []) ''te'' ''client'' 10 5)) ''client''
       = Some [5]
   \<and> rateLimit (snd (search (new_service []) ''te'' no_options ''client'' 5)) ''other'' = None
   \<and> rateLimit busy_service ''client'' = Some (replicate 29 0)
   \<and> fst (search busy_service ''te'' no_options ''client'' 2) \<noteq> Inl RateLimitExceeded
   \<and> rateLimit (snd (autocomplete busy_service ''te'' ''client'' 10 1)) ''client''
       = Some (replicate 29 0 @ [1])
   \<and> rateLimit (snd (autocomplete busy_service ''te'' ''client'' 10 1)) ''other'' = None"
proof -
  have w: "rateLimit busy_service ''client'' = Some (replicate 29 0)"
    by (simp add: busy_service_def)
  have o: "rateLimit busy_service ''other'' = None"
    by (simp add: busy_service_def new_service_def)
  have n: "rateLimit (new_service []) = Map.empty"
    by (simp add: new_service_def)
  have ne: "''other'' \<noteq> ''client''" by simp
  from shared_rate_window[of 5 "new_service []" "''client''" "''te''" 10 no_options "''other''"]
    shared_rate_window[of 2 busy_service "''client''" "''te''" 10 no_options "''other''"]
    shared_rate_window[of 1 busy_service "''client''" "''te''" 10 no_options "''other''"]
    w o n ne
  show ?thesis by (simp add: Let_def)
qed

section \<open>C10: a cached null is a cache miss\<close>

lemma setToCache_stores: "map_of (cache (setToCache k v s)) k = Some v"
  by (simp add: setToCache_def Date_now_def Let_def update_conv')

lemma getFromCache_present:
  assumes "map_of (cache s) k = Some v"
  shows "fst (getFromCache k s) = Some v"
proof -
  from assms have "k \<in> fst ` set (cache s)"
    by (metis domI dom_map_of_conv_image_fst)
  with assms show ?thesis by (simp add: getFromCache_def Date_now_def)
qed

lemma truthy_not_null: "truthy hit \<Longrightarrow> the hit \<noteq> CNull"
  by (cases hit rule: truthy.cases) simp_all

lemma findPlace_compute_null:
  assumes "fst (findPlace_compute sanitized normalized key s) = Inr CNull"
  shows "map_of (cache (snd (findPlace_compute sanitized normalized key s))) key = Some CNull"
proof (cases "List.find (matches_record normalized) (rawData s)")
  case (Some m)
  with assms show ?thesis by (simp add: findPlace_compute_def Let_def)
next
  case None
  obtain r s' where ls: "location_search sanitized 1 s = (r, s')"
    by (cases "location_search sanitized 1 s")
  show ?thesis
  proof (cases r)
    case (Inl e)
    with assms None ls show ?thesis by (simp add: findPlace_compute_def)
  next
    case (Inr found)
    show ?thesis
    proof (cases found)
      case CNull
      with None ls Inr show ?thesis by (simp add: findPlace_compute_def setToCache_stores)
    next
      case (CPlace p)
      with None ls Inr show ?thesis by (simp add: findPlace_compute_def setToCache_stores)
    next
      case (CPlaces ps)
      with assms None ls Inr show ?thesis
        by (cases ps) (simp_all add: findPlace_compute_def setToCache_stores)
    qed
  qed
qed

text \<open>
  C10: \<open>findPlace\<close> tests the value it got from the cache for truthiness. When the cache
  holds \<open>null\<close> under the key of the name, \<open>getFromCache\<close> does return that \<open>null\<close>, and
  \<open>findPlace\<close> goes on to compute the answer again; and whenever \<open>findPlace\<close> answers
  \<open>null\<close> it has stored \<open>null\<close> under the key, so the next call for the name computes again.
\<close>

theorem cached_null_is_recomputed:
  "initialized s \<and> sanitize (validator s) nm = (Inr sanitized, v) \<longrightarrow>
     (map_of (cache s) (''place-'' @ normalize sanitized) = Some CNull \<longrightarrow>
        fst (getFromCache (''place-'' @ normalize sanitized) (s\<lparr>validator := v\<rparr>)) = Some CNull
      \<and> findPlace nm s =
          findPlace_compute sanitized (normalize sanitized) (''place-'' @ normalize sanitized)
            (snd (getFromCache (''place-'' @ normalize sanitized) (s\<lparr>validator := v\<rparr>))))
   \<and> (fst (findPlace nm s) = Inr CNull \<longrightarrow>
        map_of (cache (snd (findPlace nm s))) (''place-'' @ normalize sanitized) = Some CNull)"
proof (intro impI conjI)
  assume a: "initialized s \<and> sanitize (validator s) nm = (Inr sanitized, v)"
  let ?key = "''place-'' @ normalize sanitized"
  let ?s1 = "s\<lparr>validator := v\<rparr>"
  obtain hit s2 where g: "getFromCache ?key ?s1 = (hit, s2)"
    by (cases "getFromCache ?key ?s1")
  have fp: "findPlace nm s =
      (if truthy hit then (Inr (the hit), s2)
       else findPlace_compute sanitized (normalize sanitized) ?key s2)"
    using a g by (simp add: findPlace_def Let_def)
  {
    assume n: "map_of (cache s) ?key = Some CNull"
    then have "map_of (cache ?s1) ?key = Some CNull" by simp
    from getFromCache_present[OF this] show h: "fst (getFromCache ?key ?s1) = Some CNull" .
    with g have "hit = Some CNull" by simp
    with fp g show "findPlace nm s =
        findPlace_compute sanitized (normalize sanitized) ?key (snd (getFromCache ?key ?s1))"
      by simp
  }
  {
    assume r: "fst (findPlace nm s) = Inr CNull"
    show "map_of (cache (snd (findPlace nm s))) ?key = Some CNull"
    proof (cases "truthy hit")
      case True
      with fp r truthy_not_null[OF True] show ?thesis by simp
    next
      case False
      with fp r show ?thesis by (simp add: findPlace_compute_null)
    qed
  }
qed

text \<open>A service that holds one record, with a clock that advances at every reading.\<close>

definition small_service :: LocationService where
  "small_service =
     \<lparr>rawData = [magbass], cache = [], cacheAccessTimes = [], locationIndex = [],
      initialized = True, validator = fresh_patterns,
      dateNow = (\<lambda>k. int k), dateNowCalls = 0\<rparr>"

theorem cached_null_is_recomputed_witness:
  "fst (findPlace ''nowhere'' small_service) = Inr CNull
   \<and> map_of (cache (snd (findPlace ''nowhere'' small_service))) ''place-nowhere'' = Some CNull
   \<and> findPlace ''nowhere'' (snd (findPlace ''nowhere'' small_service)) =
       findPlace_compute ''nowhere'' ''nowhere'' ''place-nowhere''
         (snd (getFromCache ''place-nowhere'' (snd (findPlace ''nowhere'' small_service))))"
proof -
  let ?s = "snd (findPlace ''nowhere'' small_service)"
  have i0: "initialized small_service" by (simp add: small_service_def)
  have s0: "sanitize (validator small_service) ''nowhere'' = (Inr ''nowhere'', fresh_patterns)"
    by code_simp
  have r0: "fst (findPlace ''nowhere'' small_service) = Inr CNull" by code_simp
  have n: "normalize ''nowhere'' = ''nowhere''" by code_simp
  have i1: "initialized ?s" by code_simp
  have v1: "validator ?s = fresh_patterns" by code_simp
  have s1: "sanitize (validator ?s) ''nowhere'' = (Inr ''nowhere'', fresh_patterns)"
    unfolding v1 using s0 by (simp add: small_service_def)
  from cached_null_is_recomputed[of small_service "''nowhere''" "''nowhere''" fresh_patterns]
    i0 s0 r0 n
  have c: "map_of (cache ?s) ''place-nowhere'' = Some CNull" by simp
  have same: "?s\<lparr>validator := fresh_patterns\<rparr> = ?s" using v1 by simp
  from cached_null_is_recomputed[of ?s "''nowhere''" "''nowhere''" fresh_patterns]
    i1 s1 c n same
  have "findPlace ''nowhere'' ?s =
       findPlace_compute ''nowhere'' ''nowhere'' ''place-nowhere''
         (snd (getFromCache ''place-nowhere'' ?s))" by simp
  with r0 c show ?thesis by simp
qed

section \<open>C8: the form of the location codes\<close>

text \<open>The record of the README's example, the town of Bo, and a \<open>LocationService\<close> that
  holds it, with any search index.\<close>

definition bo :: LocationRecord where
  "bo =
     \<lparr>idregion = ''SOUTHERN'', iddistrict = ''BO'', idcouncil = [],
      idchiefdom = ''KAKUA'', idsection = [], idtown = ''BO''\<rparr>"

definition bo_service :: "IndexMap \<Rightarrow> LocationService" where
  "bo_service index =
     \<lparr>rawData = [bo], cache = [], cacheAccessTimes = [], locationIndex = index,
      initialized = True, validator = fresh_patterns,
      dateNow = (\<lambda>k. int k), dateNowCalls = 0\<rparr>"

text \<open>
  C8 says that every location code is \<open>SL-<TYPE>-\<close> followed by the upper-cased
  alphanumeric characters of the name, the whole cut to 50 characters, in the hierarchy
  builder and in search results alike. The processor's \<open>generateCode\<close> does that:
  \<open>SL-TOWN-BO\<close> for the town of Bo, \<open>SL-TOWN-MAGBASSKHOLIFAMAMUNTHAMAYOSSO\<close> for Magbass.
  But \<open>findPlace\<close>, for which the README documents the code \<open>SL-TOWN-BO\<close>, returns
  \<open>SL-TOWN-bo\<close>, and the results of \<open>search\<close> carry \<open>SL-TOWN-bo\<close> and
  \<open>SL-TOWN-magbass kholifa mamunthamayosso\<close>: \<open>findPlace\<close> and \<open>createSearchResult\<close> put
  \<open>normalize name\<close> into the code, in lower case and with its spaces, and leave out the
  upper-casing and stripping of \<open>generateCode\<close>. The script's \<open>generateCode\<close> cuts the name
  part to 20 characters, \<open>SL-TOWN-MAGBASSKHOLIFAMAMUNT\<close>, where the processor's cuts the
  whole code to 50.
\<close>

theorem location_codes_diverge:
  "generateCode ''TOWN'' ''BO'' = ''SL-TOWN-BO''
   \<and> fst (findPlace ''BO'' (bo_service index))
       = Inr (CPlace \<lparr>p_name = ''BO'', p_type = Town, p_code = ''SL-TOWN-bo'',
                      p_province = ''SOUTHERN'', p_district = ''BO'', p_chiefdom = ''KAKUA''\<rparr>)
   \<and> fst (search (new_service [bo]) ''BO'' no_options ''client'' 0)
       = Inr [\<lparr>r_name = ''BO'', r_type = District, r_fullPath = ''SOUTHERN > BO > KAKUA > BO'',
               r_code = ''SL-DISTRICT-bo'', r_score = 1\<rparr>,
              \<lparr>r_name = ''BO'', r_type = Town, r_fullPath = ''SOUTHERN > BO > KAKUA > BO'',
               r_code = ''SL-TOWN-bo'', r_score = 1\<rparr>]
   \<and> generateCode ''TOWN'' (idtown magbass) = ''SL-TOWN-MAGBASSKHOLIFAMAMUNTHAMAYOSSO''
   \<and> fst (search (new_service [magbass]) ''Magbass'' no_options ''client'' 0)
       = Inr [\<lparr>r_name = ''MAGBASS (KHOLIFA MAMUNTHA/MAYOSSO)'', r_type = Town,
               r_fullPath = ''NORTHERN > TONKOLILI > KHOLIFA MAMUNTHA/MAYOSSO > MAGBASS (KHOLIFA MAMUNTHA/MAYOSSO)'',
               r_code = ''SL-TOWN-magbass kholifa mamunthamayosso'', r_score = 1\<rparr>]
   \<and> DataProcessor_generateCode ''TOWN'' (idtown magbass) = ''SL-TOWN-MAGBASSKHOLIFAMAMUNT''"
  by code_simp

section \<open>C4: the index round trip\<close>

lemma search_finds_indexed:
  assumes ix: "indexed index nm ty"
    and ty: "ty \<in> set (types_of options)"
    and key: "normalize s = normalize nm"
    and lim: "int (length (index_get index (normalize nm))) \<le> limit_of options"
  shows "list_ex (\<lambda>x. r_name x = trim nm \<and> r_type x = ty \<and> r_score x = 1)
           (search_results index options s)"
proof -
  let ?es = "index_get index (normalize nm)"
  let ?ex = "after_exact index options (normalize nm)"
  from ix obtain e where e: "e \<in> set ?es" "e_name e = trim nm" "e_type e = ty"
    by (auto simp: indexed_def list_ex_iff)
  have ok: "seen_ok ([], [])" by (simp add: seen_ok_def)
  have ex: "?ex = fold (exact_entry (types_of options)) ?es ([], [])"
    by (simp add: after_exact_def exact_tier_def)
  from exact_fold_found[OF e(1) _ ok, of "types_of options"] e ty
  obtain r where r: "r \<in> set (fst ?ex)" "r_name r = trim nm" "r_type r = ty" "r_score r = 1"
    unfolding ex by auto
  have sc: "\<forall>x\<in>set (fst ?ex). r_score x = 1"
    unfolding ex by (rule exact_fold_scores) simp
  have len: "int (length (fst ?ex)) \<le> limit_of options"
    using exact_fold_length[of "types_of options" ?es "([], [])"] lim unfolding ex by simp
  from after_fuzzy_extends[of index options "normalize nm"]
  obtain more where more: "fst (after_fuzzy index options (normalize nm)) = fst ?ex @ more"
      "\<forall>x\<in>set more. r_score x \<le> 1"
    by (auto simp: extends_def)
  have "sort_by_score r_score (fst ?ex @ more) = fst ?ex @ sort_by_score r_score more"
    using sc more(2) by (rule sort_by_score_prefix)
  then have "search_results index options s
      = slice0 (fst ?ex @ sort_by_score r_score more) (limit_of options)"
    by (simp add: search_results_def key more(1))
  with slice0_prefix[OF len, of "sort_by_score r_score more"] r(1)
  have "r \<in> set (search_results index options s)" by auto
  with r show ?thesis by (auto simp: list_ex_iff)
qed

lemma autocomplete_finds_indexed:
  assumes ix: "indexed index nm ty"
    and pre: "starts_with (normalize nm) p"
    and p: "p = normalize s"
    and lim: "int (length (fst (autocomplete_scan p index))) \<le> limit"
  shows "trim nm \<in> set (map fst (slice0 (sort_by_score snd (fst (autocomplete_scan p index))) limit))"
proof -
  let ?es = "index_get index (normalize nm)"
  from ix obtain e where e: "e \<in> set ?es" "e_name e = trim nm" "e_normalized e = normalize nm"
    by (auto simp: indexed_def list_ex_iff)
  have inx: "(normalize nm, ?es) \<in> set index" using e(1) by (rule index_get_in_index)
  have inc: "str_includes (normalize nm) p \<or> str_includes p (normalize nm)"
    using pre by (simp add: starts_with_includes)
  have ok: "names_ok ([], [])" by (simp add: names_ok_def)
  from prefix_similarity[of nm s] pre p
  have "round_double (8 / 10) \<le> calculateSimilarity p (normalize nm)" by simp
  with e(3) threshold_below_containment
  have sim': "round_double (3 / 10) < calculateSimilarity p (e_normalized e)" by simp
  from scan_fold_found[OF inx inc e(1) sim' ok] e(2)
  have found: "trim nm \<in> fst ` set (fst (autocomplete_scan p index))"
    by (simp add: autocomplete_scan_fold)
  have "length (sort_by_score snd (fst (autocomplete_scan p index)))
      = length (fst (autocomplete_scan p index))"
    by (simp add: sort_by_score_def)
  with lim have "slice0 (sort_by_score snd (fst (autocomplete_scan p index))) limit
      = sort_by_score snd (fst (autocomplete_scan p index))"
    by (intro slice0_all) simp
  with found show ?thesis by (simp add: sort_by_score_def)
qed

text \<open>
  C4 says that searching for the normalized name of any entity of the records returns
  that entity with score 1.0. The key of the index is \<open>normalize name\<close>, but the key that
  \<open>search\<close> looks up is \<open>normalize\<close> of the sanitized query, and sanitizing collapses
  white space. For the region \<open>A ; B\<close> the index key is \<open>a  b\<close> with two spaces; the query
  \<open>a  b\<close>, and the name itself, are looked up under \<open>a b\<close>, which is no key, and the region
  is found by the phonetic tier only, with score 0.8. A query whose sanitized form is
  empty is answered with no result before any lookup: the region \<open>??\<close> has the empty
  string as its normalized name, and the search for it returns nothing. And a query that
  the sanitizer refuses is not looked up at all: the section \<open>A\<close> is indexed under \<open>a\<close>, a
  query of one character.
\<close>

definition odd_region :: LocationRecord where
  "odd_region = magbass\<lparr>idregion := ''A ; B''\<rparr>"

definition blank_region :: LocationRecord where
  "blank_region = magbass\<lparr>idregion := ''??''\<rparr>"

definition short_section :: LocationRecord where
  "short_section = magbass\<lparr>idsection := ''A''\<rparr>"

theorem round_trip_counterexample:
  "normalize ''A ; B'' = ''a  b''
   \<and> fst (search (new_service [odd_region]) ''a  b'' no_options ''client'' 0)
       = Inr [\<lparr>r_name = ''A ; B'', r_type = Region,
               r_fullPath = ''A ; B > TONKOLILI > KHOLIFA MAMUNTHA/MAYOSSO > A ; B'',
               r_code = ''SL-REGION-a  b'', r_score = round_double (4 / 5)\<rparr>]
   \<and> fst (search (new_service [odd_region]) ''A ; B'' no_options ''client'' 0)
       = fst (search (new_service [odd_region]) ''a  b'' no_options ''client'' 0)
   \<and> normalize ''??'' = []
   \<and> map e_name (index_get (searchIndex (new_service [blank_region])) []) = [''??'']
   \<and> fst (search (new_service [blank_region]) [] no_options ''client'' 0) = Inr []
   \<and> normalize ''A'' = ''a''
   \<and> map e_name (index_get (searchIndex (new_service [short_section])) ''a'') = [''A'']
   \<and> fst (search (new_service [short_section]) ''a'' no_options ''client'' 0)
       = Inl QueryTooShort"
  by code_simp

text \<open>
  C4, as amended. Let \<open>nm\<close> be a non-blank name of an entity of type \<open>ty\<close> in the records
  from which the index was built. A search that the rate limiter admits, with a query that
  the sanitizer accepts and whose sanitized form is not empty and normalizes to the index
  key \<open>normalize nm\<close>, returns a result with the trimmed name, the type \<open>ty\<close> and score 1,
  provided \<open>ty\<close> is among the requested types and the limit is not smaller than the number
  of entries under that key. An admitted autocomplete whose sanitized query has at least
  two characters and normalizes to a prefix of \<open>normalize nm\<close> returns the trimmed name,
  provided the limit is not smaller than the number of names collected.
\<close>

theorem index_round_trip:
  "r \<in> set records \<and> (nm, ty) \<in> set (entities r) \<and> trim nm \<noteq> []
     \<and> searchIndex svc = buildSearchIndex records [] \<longrightarrow>
   (fst (checkRateLimit c (rateLimit svc) 30 60000 now)
      \<and> fst (sanitizeSearchQuery (patterns svc) q) = Inr s \<and> s \<noteq> []
      \<and> normalize s = normalize nm \<and> ty \<in> set (types_of options)
      \<and> int (length (index_get (searchIndex svc) (normalize nm))) \<le> limit_of options
    \<longrightarrow> (\<exists>found. fst (search svc q options c now) = Inr found
          \<and> list_ex (\<lambda>x. r_name x = trim nm \<and> r_type x = ty \<and> r_score x = 1) found))
   \<and> (fst (checkRateLimit c (rateLimit svc) 50 60000 now)
      \<and> fst (sanitizeSearchQuery (patterns svc) q') = Inr s' \<and> 2 \<le> length s'
      \<and> starts_with (normalize nm) (normalize s')
      \<and> int (length (fst (autocomplete_scan (normalize s') (searchIndex svc)))) \<le> limit
    \<longrightarrow> (\<exists>names. fst (autocomplete svc q' c limit now) = Inr names \<and> trim nm \<in> set names))"
proof (intro impI conjI)
  assume a: "r \<in> set records \<and> (nm, ty) \<in> set (entities r) \<and> trim nm \<noteq> []
     \<and> searchIndex svc = buildSearchIndex records []"
  then have ix: "indexed (searchIndex svc) nm ty"
    using buildSearchIndex_indexed[of r records nm ty "[]"] by simp
  {
    assume b: "fst (checkRateLimit c (rateLimit svc) 30 60000 now)
      \<and> fst (sanitizeSearchQuery (patterns svc) q) = Inr s \<and> s \<noteq> []
      \<and> normalize s = normalize nm \<and> ty \<in> set (types_of options)
      \<and> int (length (index_get (searchIndex svc) (normalize nm))) \<le> limit_of options"
    then have adm: "fst (checkRateLimit c (rateLimit svc) 30 60000 now)" by blast
    from b have "fst (search svc q options c now) = Inr (search_results (searchIndex svc) options s)"
      by (simp add: search_admitted[OF adm])
    moreover from b have "list_ex (\<lambda>x. r_name x = trim nm \<and> r_type x = ty \<and> r_score x = 1)
        (search_results (searchIndex svc) options s)"
      by (intro search_finds_indexed[OF ix]) blast+
    ultimately show "\<exists>found. fst (search svc q options c now) = Inr found
          \<and> list_ex (\<lambda>x. r_name x = trim nm \<and> r_type x = ty \<and> r_score x = 1) found"
      by blast
  }
  {
    assume b: "fst (checkRateLimit c (rateLimit svc) 50 60000 now)
      \<and> fst (sanitizeSearchQuery (patterns svc) q') = Inr s' \<and> 2 \<le> length s'
      \<and> starts_with (normalize nm) (normalize s')
      \<and> int (length (fst (autocomplete_scan (normalize s') (searchIndex svc)))) \<le> limit"
    then have adm: "fst (checkRateLimit c (rateLimit svc) 50 60000 now)" by blast
    from b have "fst (autocomplete svc q' c limit now) =
        Inr (map fst (slice0 (sort_by_score snd
               (fst (autocomplete_scan (normalize s') (searchIndex svc)))) limit))"
      by (simp add: autocomplete_admitted[OF adm])
    moreover from b have "trim nm \<in> set (map fst (slice0 (sort_by_score snd
               (fst (autocomplete_scan (normalize s') (searchIndex svc)))) limit))"
      by (intro autocomplete_finds_indexed[OF ix, where s=s']) blast+
    ultimately show "\<exists>names. fst (autocomplete svc q' c limit now) = Inr names
        \<and> trim nm \<in> set names"
      by blast
  }
qed

theorem index_round_trip_witness:
  "(''TONKOLILI'', District) \<in> set (entities magbass)
   \<and> normalize ''TONKOLILI'' = ''tonkolili''
   \<and> (\<exists>found. fst (search (new_service [magbass]) ''tonkolili'' no_options ''client'' 0) = Inr found
        \<and> list_ex (\<lambda>x. r_name x = ''TONKOLILI'' \<and> r_type x = District \<and> r_score x = 1) found)
   \<and> (\<exists>names. fst (autocomplete (new_service [magbass]) ''tonk'' ''client'' 10 0) = Inr names
        \<and> ''TONKOLILI'' \<in> set names)"
proof -
  let ?svc = "new_service [magbass]"
  have e: "(''TONKOLILI'', District) \<in> set (entities magbass)"
    by (simp add: entities_def magbass_def)
  have t: "trim ''TONKOLILI'' = ''TONKOLILI''" by code_simp
  have n: "normalize ''TONKOLILI'' = ''tonkolili''" by code_simp
  have si: "searchIndex ?svc = buildSearchIndex [magbass] []" by (simp add: new_service_def)
  have a1: "fst (checkRateLimit ''client'' (rateLimit ?svc) 30 60000 0)"
    by (simp add: new_service_def checkRateLimit_def)
  have a2: "fst (checkRateLimit ''client'' (rateLimit ?svc) 50 60000 0)"
    by (simp add: new_service_def checkRateLimit_def)
  have s1: "fst (sanitizeSearchQuery (patterns ?svc) ''tonkolili'') = Inr ''tonkolili''"
    by code_simp
  have s2: "fst (sanitizeSearchQuery (patterns ?svc) ''tonk'') = Inr ''tonk''"
    by code_simp
  have k: "normalize ''tonkolili'' = ''tonkolili''" by code_simp
  have ty: "District \<in> set (types_of no_options)" by code_simp
  have l1: "int (length (index_get (searchIndex ?svc) ''tonkolili'')) \<le> limit_of no_options"
    by code_simp
  have p: "starts_with ''tonkolili'' (normalize ''tonk'')" by code_simp
  have l2: "int (length (fst (autocomplete_scan (normalize ''tonk'') (searchIndex ?svc)))) \<le> 10"
    by code_simp
  from index_round_trip[of magbass "[magbass]" "''TONKOLILI''" District ?svc "''client''" 0
      "''tonkolili''" "''tonkolili''" no_options "''tonk''" "''tonk''" 10]
    e t n si a1 a2 s1 s2 k ty l1 p l2
  show ?thesis by simp
qed

end
